theory Spec2Isabelle
  imports Complex_Main
begin

section \<open>Values\<close>

text \<open>
  The component \<^verbatim>\<open>src/components/TicTacToe.js\<close> keeps the board as an array of nine
  strings: \<^verbatim>\<open>''\<close> for an empty cell, \<^verbatim>\<open>'X'\<close> and \<^verbatim>\<open>'O'\<close> for the two players. A board is
  a list of strings here, a player symbol is a string, a cell index is a natural number.
  Reading an array outside its range gives \<^verbatim>\<open>undefined\<close> in JavaScript: \<open>elemAt\<close> returns
  \<open>None\<close> there, and \<open>None\<close> is equal to no string, as \<^verbatim>\<open>undefined === 'X'\<close> is false.
\<close>

type_synonym board = "string list"

definition elemAt :: "'a list \<Rightarrow> nat \<Rightarrow> 'a option" where
  "elemAt xs i = (if i < length xs then Some (xs ! i) else None)"

text \<open>
  The numbers of the search are integers and the two infinities that start the loops
  (\<^verbatim>\<open>-Infinity\<close>, \<^verbatim>\<open>Infinity\<close>). \<^verbatim>\<open>Math.max\<close>, \<^verbatim>\<open>Math.min\<close>, \<^verbatim>\<open><=\<close> and \<^verbatim>\<open>>\<close> are \<open>max\<close>,
  \<open>min\<close>, \<open>\<le>\<close> and \<open>>\<close> of the linear order below.
\<close>

datatype jsnum = NegInfinity | Num int | Infinity

instantiation jsnum :: linorder
begin

fun less_eq_jsnum :: "jsnum \<Rightarrow> jsnum \<Rightarrow> bool" where
  "less_eq_jsnum NegInfinity y = True"
| "less_eq_jsnum (Num a) NegInfinity = False"
| "less_eq_jsnum (Num a) (Num b) = (a \<le> b)"
| "less_eq_jsnum (Num a) Infinity = True"
| "less_eq_jsnum Infinity NegInfinity = False"
| "less_eq_jsnum Infinity (Num b) = False"
| "less_eq_jsnum Infinity Infinity = True"

definition less_jsnum :: "jsnum \<Rightarrow> jsnum \<Rightarrow> bool" where
  "less_jsnum x y = (x \<le> y \<and> \<not> y \<le> x)"

instance
proof
  fix x y z :: jsnum
  show "(x < y) = (x \<le> y \<and> \<not> y \<le> x)" by (simp add: less_jsnum_def)
  show "x \<le> x" by (cases x) simp_all
  show "x \<le> y \<Longrightarrow> y \<le> z \<Longrightarrow> x \<le> z" by (cases x; cases y; cases z) simp_all
  show "x \<le> y \<Longrightarrow> y \<le> x \<Longrightarrow> x = y" by (cases x; cases y) simp_all
  show "x \<le> y \<or> y \<le> x" by (cases x; cases y) auto
qed

end

text \<open>
  A move index as the selection functions return it: \<^verbatim>\<open>null\<close>, \<^verbatim>\<open>undefined\<close> (an array read
  out of range) or a cell index.
\<close>

datatype move = Null | Undefined | Cell nat

definition toMove :: "nat option \<Rightarrow> move" where
  "toMove v = (case v of None \<Rightarrow> Undefined | Some i \<Rightarrow> Cell i)"

text \<open>
  \<^verbatim>\<open>Math.random()\<close> is a draw \<open>r\<close> with \<open>0 \<le> r < 1\<close>, passed in by the caller in the order
  the code draws. \<^verbatim>\<open>xs[Math.floor(Math.random() * xs.length)]\<close> is \<open>pick xs r\<close>.
\<close>

definition pick :: "nat list \<Rightarrow> real \<Rightarrow> move" where
  "pick xs r = toMove (elemAt xs (nat \<lfloor>r * real (length xs)\<rfloor>))"

section \<open>Rules: winning combinations and empty cells\<close>

type_synonym combo = "nat \<times> nat \<times> nat"

definition winCombos :: "combo list" where
  "winCombos =
    [(0, 1, 2), (3, 4, 5), (6, 7, 8),
     (0, 3, 6), (1, 4, 7), (2, 5, 8),
     (0, 4, 8), (2, 4, 6)]"

definition comboWins :: "board \<Rightarrow> string \<Rightarrow> combo \<Rightarrow> bool" where
  "comboWins boardState player combo =
    (case combo of (a, b, c) \<Rightarrow>
      elemAt boardState a = Some player \<and> elemAt boardState b = Some player
      \<and> elemAt boardState c = Some player)"

text \<open>The loop over \<open>winCombos\<close> returns the first combination that passes the test.\<close>

definition checkWinner :: "board \<Rightarrow> string \<Rightarrow> combo option" where
  "checkWinner boardState player = find (comboWins boardState player) winCombos"

definition getEmptyCells :: "board \<Rightarrow> nat list" where
  "getEmptyCells boardState =
    filter (\<lambda>index. boardState ! index = '''') [0..<length boardState]"

section \<open>Minimax with alpha-beta pruning\<close>

text \<open>
  \<open>minimax\<close> with its two \<^verbatim>\<open>for\<close> loops, each a function of the cells still to visit and
  of the loop's variables (\<open>maxEval\<close> or \<open>minEval\<close>, \<open>alpha\<close>, \<open>beta\<close>). A loop returns at its
  \<^verbatim>\<open>break\<close>. The recursion ends because the depth grows and nothing is searched past
  depth 6.
\<close>

function minimax :: "board \<Rightarrow> int \<Rightarrow> bool \<Rightarrow> jsnum \<Rightarrow> jsnum \<Rightarrow> jsnum"
  and maxLoop :: "board \<Rightarrow> int \<Rightarrow> nat list \<Rightarrow> jsnum \<Rightarrow> jsnum \<Rightarrow> jsnum \<Rightarrow> jsnum"
  and minLoop :: "board \<Rightarrow> int \<Rightarrow> nat list \<Rightarrow> jsnum \<Rightarrow> jsnum \<Rightarrow> jsnum \<Rightarrow> jsnum"
where
  "minimax boardState depth isMaximizing alpha beta =
    (if checkWinner boardState ''O'' \<noteq> None then Num (10 - depth)
     else if checkWinner boardState ''X'' \<noteq> None then Num (depth - 10)
     else if length (getEmptyCells boardState) = 0 then Num 0
     else if depth > 6 then Num 0
     else if isMaximizing
       then maxLoop boardState depth (getEmptyCells boardState) NegInfinity alpha beta
       else minLoop boardState depth (getEmptyCells boardState) Infinity alpha beta)"
| "maxLoop boardState depth [] maxEval alpha beta = maxEval"
| "maxLoop boardState depth (cellIndex # rest) maxEval alpha beta =
    (let evaluation = minimax (boardState[cellIndex := ''O'']) (depth + 1) False alpha beta in
     if beta \<le> max alpha evaluation then max maxEval evaluation
     else maxLoop boardState depth rest (max maxEval evaluation) (max alpha evaluation) beta)"
| "minLoop boardState depth [] minEval alpha beta = minEval"
| "minLoop boardState depth (cellIndex # rest) minEval alpha beta =
    (let evaluation = minimax (boardState[cellIndex := ''X'']) (depth + 1) True alpha beta in
     if min beta evaluation \<le> alpha then min minEval evaluation
     else minLoop boardState depth rest (min minEval evaluation) alpha (min beta evaluation))"
  by pat_completeness auto
termination
  by (relation "inv_image (less_than <*lex*> less_than)
        (\<lambda>x. case x of
            Inl (b, d, m, al, be) \<Rightarrow> (if d > 6 then 0 else 2 * nat (7 - d), 0)
          | Inr (Inl (b, d, cs, ev, al, be)) \<Rightarrow> (2 * nat (6 - d) + 1, length cs)
          | Inr (Inr (b, d, cs, ev, al, be)) \<Rightarrow> (2 * nat (6 - d) + 1, length cs))")
     auto

text \<open>
  The search without pruning, written from the specification's words: the value of a
  finished or cut-off position is the same, a maximizing ply takes the greatest value of
  all its moves and a minimizing ply the least. It has no \<open>alpha\<close> and no \<open>beta\<close> and
  visits every empty cell.
\<close>

function plainMinimax :: "board \<Rightarrow> int \<Rightarrow> bool \<Rightarrow> jsnum"
  and plainMax :: "board \<Rightarrow> int \<Rightarrow> nat list \<Rightarrow> jsnum"
  and plainMin :: "board \<Rightarrow> int \<Rightarrow> nat list \<Rightarrow> jsnum"
where
  "plainMinimax boardState depth isMaximizing =
    (if checkWinner boardState ''O'' \<noteq> None then Num (10 - depth)
     else if checkWinner boardState ''X'' \<noteq> None then Num (depth - 10)
     else if length (getEmptyCells boardState) = 0 then Num 0
     else if depth > 6 then Num 0
     else if isMaximizing then plainMax boardState depth (getEmptyCells boardState)
     else plainMin boardState depth (getEmptyCells boardState))"
| "plainMax boardState depth [] = NegInfinity"
| "plainMax boardState depth (cellIndex # rest) =
    max (plainMinimax (boardState[cellIndex := ''O'']) (depth + 1) False)
        (plainMax boardState depth rest)"
| "plainMin boardState depth [] = Infinity"
| "plainMin boardState depth (cellIndex # rest) =
    min (plainMinimax (boardState[cellIndex := ''X'']) (depth + 1) True)
        (plainMin boardState depth rest)"
  by pat_completeness auto
termination
  by (relation "inv_image (less_than <*lex*> less_than)
        (\<lambda>x. case x of
            Inl (b, d, m) \<Rightarrow> (if d > 6 then 0 else 2 * nat (7 - d), 0)
          | Inr (Inl (b, d, cs)) \<Rightarrow> (2 * nat (6 - d) + 1, length cs)
          | Inr (Inr (b, d, cs)) \<Rightarrow> (2 * nat (6 - d) + 1, length cs))")
     auto

text \<open>
  The same search with a bound on the nesting of calls: \<open>minimaxFuel n\<close> may nest \<open>n\<close>
  calls of \<open>minimax\<close> and is \<open>None\<close> when that is not enough. A call that needs no more
  than the bound returns \<open>Some\<close> of its value.
\<close>

function minimaxFuel :: "nat \<Rightarrow> board \<Rightarrow> int \<Rightarrow> bool \<Rightarrow> jsnum \<Rightarrow> jsnum \<Rightarrow> jsnum option"
  and maxLoopFuel ::
    "nat \<Rightarrow> board \<Rightarrow> int \<Rightarrow> nat list \<Rightarrow> jsnum \<Rightarrow> jsnum \<Rightarrow> jsnum \<Rightarrow> jsnum option"
  and minLoopFuel ::
    "nat \<Rightarrow> board \<Rightarrow> int \<Rightarrow> nat list \<Rightarrow> jsnum \<Rightarrow> jsnum \<Rightarrow> jsnum \<Rightarrow> jsnum option"
where
  "minimaxFuel 0 boardState depth isMaximizing alpha beta = None"
| "minimaxFuel (Suc n) boardState depth isMaximizing alpha beta =
    (if checkWinner boardState ''O'' \<noteq> None then Some (Num (10 - depth))
     else if checkWinner boardState ''X'' \<noteq> None then Some (Num (depth - 10))
     else if length (getEmptyCells boardState) = 0 then Some (Num 0)
     else if depth > 6 then Some (Num 0)
     else if isMaximizing
       then maxLoopFuel n boardState depth (getEmptyCells boardState) NegInfinity alpha beta
       else minLoopFuel n boardState depth (getEmptyCells boardState) Infinity alpha beta)"
| "maxLoopFuel n boardState depth [] maxEval alpha beta = Some maxEval"
| "maxLoopFuel n boardState depth (cellIndex # rest) maxEval alpha beta =
    (case minimaxFuel n (boardState[cellIndex := ''O'']) (depth + 1) False alpha beta of
       None \<Rightarrow> None
     | Some evaluation \<Rightarrow>
         if beta \<le> max alpha evaluation then Some (max maxEval evaluation)
         else maxLoopFuel n boardState depth rest (max maxEval evaluation)
                (max alpha evaluation) beta)"
| "minLoopFuel n boardState depth [] minEval alpha beta = Some minEval"
| "minLoopFuel n boardState depth (cellIndex # rest) minEval alpha beta =
    (case minimaxFuel n (boardState[cellIndex := ''X'']) (depth + 1) True alpha beta of
       None \<Rightarrow> None
     | Some evaluation \<Rightarrow>
         if min beta evaluation \<le> alpha then Some (min minEval evaluation)
         else minLoopFuel n boardState depth rest (min minEval evaluation) alpha
                (min beta evaluation))"
  by pat_completeness auto
termination
  by (relation "inv_image (less_than <*lex*> less_than)
        (\<lambda>x. case x of
            Inl (n, b, d, m, al, be) \<Rightarrow> (2 * n, 0)
          | Inr (Inl (n, b, d, cs, ev, al, be)) \<Rightarrow> (2 * n + 1, length cs)
          | Inr (Inr (n, b, d, cs, ev, al, be)) \<Rightarrow> (2 * n + 1, length cs))")
     auto

section \<open>Move selection\<close>

text \<open>
  \<open>getStrategicMove\<close>: the first empty cell that wins for \<^verbatim>\<open>'O'\<close>, else the first that
  would win for \<^verbatim>\<open>'X'\<close>, else the center, else a corner drawn among the empty corners,
  else an empty cell drawn among all. It draws at most once (\<open>r\<close>).
\<close>

definition getStrategicMove :: "board \<Rightarrow> real \<Rightarrow> move" where
  "getStrategicMove boardState r =
    (let emptyCells = getEmptyCells boardState in
     case find (\<lambda>cellIndex. checkWinner (boardState[cellIndex := ''O'']) ''O'' \<noteq> None)
            emptyCells of
       Some cellIndex \<Rightarrow> Cell cellIndex
     | None \<Rightarrow>
        (case find (\<lambda>cellIndex. checkWinner (boardState[cellIndex := ''X'']) ''X'' \<noteq> None)
               emptyCells of
           Some cellIndex \<Rightarrow> Cell cellIndex
         | None \<Rightarrow>
             if elemAt boardState 4 = Some '''' then Cell 4
             else
               let availableCorners =
                     filter (\<lambda>i. elemAt boardState i = Some '''') [0, 2, 6, 8] in
               if length availableCorners > 0 then pick availableCorners r
               else pick emptyCells r))"

record opponent =
  name :: string
  difficulty :: string
  description :: string
  thinkingTime :: "nat \<times> nat"
  errorRate :: real

definition opponents :: "string \<Rightarrow> opponent option" where
  "opponents =
    [''alex'' \<mapsto>
       \<lparr>name = ''Alex'', difficulty = ''easy'',
        description = ''Friendly and makes occasional mistakes'',
        thinkingTime = (800, 1500), errorRate = 3 / 10\<rparr>,
     ''maya'' \<mapsto>
       \<lparr>name = ''Maya'', difficulty = ''medium'',
        description = ''Balanced player with good strategy'',
        thinkingTime = (1000, 2000), errorRate = 15 / 100\<rparr>,
     ''victor'' \<mapsto>
       \<lparr>name = ''Victor'', difficulty = ''expert'',
        description = ''Master strategist, nearly unbeatable'',
        thinkingTime = (1500, 3000), errorRate = 5 / 100\<rparr>]"

text \<open>
  The loop of the expert tier: \<open>bestMove\<close> starts at \<open>-1\<close> and \<open>bestValue\<close> at
  \<^verbatim>\<open>-Infinity\<close>; a cell replaces the best one only when its value is strictly greater.
\<close>

fun bestMoveLoop :: "board \<Rightarrow> nat list \<Rightarrow> int \<Rightarrow> jsnum \<Rightarrow> int \<times> jsnum" where
  "bestMoveLoop boardState [] bestMove bestValue = (bestMove, bestValue)"
| "bestMoveLoop boardState (cellIndex # rest) bestMove bestValue =
    (let moveValue = minimax (boardState[cellIndex := ''O'']) 0 False NegInfinity Infinity in
     if moveValue > bestValue then bestMoveLoop boardState rest (int cellIndex) moveValue
     else bestMoveLoop boardState rest bestMove bestValue)"

text \<open>
  The only exception \<open>getBestMove\<close> can raise is the \<^verbatim>\<open>TypeError\<close> of reading
  \<^verbatim>\<open>opponent.errorRate\<close> when \<open>selectedOpponent\<close> is no key of \<open>opponents\<close>. The draws
  \<open>r1\<close>, \<open>r2\<close>, \<open>r3\<close> are the results of the first, second and third call of
  \<^verbatim>\<open>Math.random()\<close>; no path draws more than three times.
\<close>

datatype error = TypeError

definition getBestMove :: "string \<Rightarrow> real \<Rightarrow> real \<Rightarrow> real \<Rightarrow> board \<Rightarrow> error + move" where
  "getBestMove selected r1 r2 r3 boardState =
    (let emptyCells = getEmptyCells boardState in
     if length emptyCells = 0 then Inr Null
     else
       case opponents selected of
         None \<Rightarrow> Inl TypeError
       | Some opp \<Rightarrow>
           if r1 < errorRate opp then Inr (pick emptyCells r2)
           else if difficulty opp = ''easy'' then
             (if r2 < 6 / 10 then Inr (getStrategicMove boardState r3)
              else Inr (pick emptyCells r3))
           else if difficulty opp = ''medium'' then Inr (getStrategicMove boardState r2)
           else if difficulty opp = ''expert'' then
             (let bestMove = fst (bestMoveLoop boardState emptyCells (- 1) NegInfinity) in
              if bestMove \<noteq> - 1 then Inr (Cell (nat bestMove))
              else Inr (toMove (elemAt emptyCells 0)))
           else Inr (toMove (elemAt emptyCells 0)))"

text \<open>
  The earlier version of the component has one selection function, without tiers: the
  same heuristic behind the check for a full board. It is \<open>getBestMove\<close> there and
  \<open>getBestMoveAI\<close> here.
\<close>

definition simulateMove :: "board \<Rightarrow> nat \<Rightarrow> string \<Rightarrow> combo option" where
  "simulateMove boardState cellIndex player = checkWinner (boardState[cellIndex := player]) player"

definition getBestMoveAI :: "board \<Rightarrow> real \<Rightarrow> move" where
  "getBestMoveAI boardState r =
    (let emptyCells = getEmptyCells boardState in
     if length emptyCells = 0 then Null
     else
       case find (\<lambda>cellIndex. simulateMove boardState cellIndex ''O'' \<noteq> None) emptyCells of
         Some cellIndex \<Rightarrow> Cell cellIndex
       | None \<Rightarrow>
          (case find (\<lambda>cellIndex. simulateMove boardState cellIndex ''X'' \<noteq> None) emptyCells of
             Some cellIndex \<Rightarrow> Cell cellIndex
           | None \<Rightarrow>
               if elemAt boardState 4 = Some '''' then Cell 4
               else
                 let availableCorners =
                       filter (\<lambda>index. elemAt boardState index = Some '''') [0, 2, 6, 8] in
                 if length availableCorners > 0 then pick availableCorners r
                 else pick emptyCells r))"

section \<open>The controller\<close>

text \<open>
  The state of the component: the values of its \<^verbatim>\<open>useState\<close> cells that the game logic
  reads or writes. \<open>scores\<close> is the object \<^verbatim>\<open>{ X: 0, O: 0 }\<close>, a map from the symbol to
  its count; a key with no count is \<open>None\<close>.
\<close>

record game =
  board :: board
  currentPlayer :: string
  gameFinished :: bool
  scores :: "string \<Rightarrow> int option"
  gameMode :: string
  selectedOpponent :: string
  isThinking :: bool
  winnerCells :: "nat list"

definition initialGame :: game where
  "initialGame =
    \<lparr>board = replicate 9 '''', currentPlayer = ''X'', gameFinished = False,
     scores = [''X'' \<mapsto> 0, ''O'' \<mapsto> 0], gameMode = ''human'',
     selectedOpponent = ''alex'', isThinking = False, winnerCells = []\<rparr>"

text \<open>
  A function of the component reads the state of the render that created it and writes
  through the setters. Where the two can differ (a timer fires after later renders), the
  functions below take both: \<open>render\<close> is the state the closure has captured, \<open>state\<close> is
  the state the setters update. A click handler runs with \<open>render = state\<close>.
  \<^verbatim>\<open>setScores(prev => ...)\<close> reads the count from the state it updates.
\<close>

definition handleWin :: "string \<Rightarrow> combo \<Rightarrow> game \<Rightarrow> game" where
  "handleWin player winCombo state =
    (case winCombo of (a, b, c) \<Rightarrow>
      state\<lparr>winnerCells := [a, b, c], gameFinished := True,
            scores := (scores state)(player := map_option (\<lambda>n. n + 1) (scores state player))\<rparr>)"

definition makeMove :: "game \<Rightarrow> nat \<Rightarrow> string \<Rightarrow> game \<Rightarrow> game" where
  "makeMove render cellIndex player state =
    (if gameFinished render \<or> elemAt (board render) cellIndex \<noteq> Some '''' \<or> isThinking render
     then state
     else
       let newBoard = (board render)[cellIndex := player];
           state1 = state\<lparr>board := newBoard\<rparr> in
       case checkWinner newBoard player of
         Some winCombo \<Rightarrow> handleWin player winCombo state1
       | None \<Rightarrow>
           if length (getEmptyCells newBoard) = 0 then state1\<lparr>gameFinished := True\<rparr>
           else state1\<lparr>currentPlayer := (if player = ''X'' then ''O'' else ''X'')\<rparr>)"

definition handleCellClick :: "nat \<Rightarrow> game \<Rightarrow> game" where
  "handleCellClick cellIndex state =
    (if gameMode state = ''computer'' \<and> currentPlayer state = ''O'' then state
     else makeMove state cellIndex (currentPlayer state) state)"

definition initGame :: "game \<Rightarrow> game" where
  "initGame state =
    state\<lparr>board := replicate 9 '''', currentPlayer := ''X'', gameFinished := False,
          isThinking := False, winnerCells := []\<rparr>"

definition resetScore :: "game \<Rightarrow> game" where
  "resetScore state = state\<lparr>scores := [''X'' \<mapsto> 0, ''O'' \<mapsto> 0]\<rparr>"

definition switchMode :: "string \<Rightarrow> game \<Rightarrow> game" where
  "switchMode mode state = initGame (state\<lparr>gameMode := mode\<rparr>)"

definition selectOpponent :: "string \<Rightarrow> game \<Rightarrow> game" where
  "selectOpponent opponentId state =
    (let state1 = state\<lparr>selectedOpponent := opponentId\<rparr> in
     if gameMode state = ''computer'' then initGame state1 else state1)"

text \<open>
  \<open>opponentMove\<close> sets \<open>isThinking\<close> and starts a timer whose callback keeps the render
  it was created in. A session is the current state and the renders of the callbacks
  that have not run yet; nothing in the component clears such a timer.
\<close>

record session =
  live :: game
  timers :: "game list"

definition initialSession :: session where
  "initialSession = \<lparr>live = initialGame, timers = []\<rparr>"

definition opponentMove :: "session \<Rightarrow> session" where
  "opponentMove ss =
    (if gameFinished (live ss) \<or> isThinking (live ss) then ss
     else \<lparr>live = (live ss)\<lparr>isThinking := True\<rparr>, timers = timers ss @ [live ss]\<rparr>)"

text \<open>
  The callback of the thinking timer, run in the render \<open>render\<close> on the state \<open>state\<close>:
  \<^verbatim>\<open>getBestMove(board)\<close>, then \<^verbatim>\<open>makeMove(bestMoveIndex, 'O', true)\<close> unless the index
  is \<^verbatim>\<open>null\<close>, then \<^verbatim>\<open>setIsThinking(false)\<close>. An exception ends the callback before
  any setter. \<open>makeMove\<close> returns at once for \<^verbatim>\<open>undefined\<close>, since
  \<^verbatim>\<open>board[undefined] !== ''\<close>.
\<close>

definition thinkingDone :: "game \<Rightarrow> real \<Rightarrow> real \<Rightarrow> real \<Rightarrow> game \<Rightarrow> game" where
  "thinkingDone render r1 r2 r3 state =
    (case getBestMove (selectedOpponent render) r1 r2 r3 (board render) of
       Inl e \<Rightarrow> state
     | Inr Null \<Rightarrow> state\<lparr>isThinking := False\<rparr>
     | Inr Undefined \<Rightarrow> state\<lparr>isThinking := False\<rparr>
     | Inr (Cell bestMoveIndex) \<Rightarrow>
         (makeMove render bestMoveIndex ''O'' state)\<lparr>isThinking := False\<rparr>)"

text \<open>
  What can happen to a session: a click on a cell, the effect that calls \<open>opponentMove\<close>
  (it runs when the mode is \<^verbatim>\<open>'computer'\<close>, it is the turn of \<^verbatim>\<open>'O'\<close>, and the game is
  neither finished nor thinking), a thinking timer that fires with its three draws, and
  the buttons (new game, reset score, mode, opponent).
\<close>

datatype event =
    CellClick nat
  | OpponentTurn
  | ThinkingDone nat real real real
  | NewGame
  | ResetScore
  | SwitchMode string
  | SelectOpponent string

definition validDraw :: "real \<Rightarrow> bool" where
  "validDraw r = (0 \<le> r \<and> r < 1)"

fun step :: "event \<Rightarrow> session \<Rightarrow> session" where
  "step (CellClick cellIndex) ss = ss\<lparr>live := handleCellClick cellIndex (live ss)\<rparr>"
| "step OpponentTurn ss =
    (if gameMode (live ss) = ''computer'' \<and> currentPlayer (live ss) = ''O''
        \<and> \<not> gameFinished (live ss) \<and> \<not> isThinking (live ss)
     then opponentMove ss else ss)"
| "step (ThinkingDone k r1 r2 r3) ss =
    (if k < length (timers ss) \<and> validDraw r1 \<and> validDraw r2 \<and> validDraw r3
     then \<lparr>live = thinkingDone (timers ss ! k) r1 r2 r3 (live ss),
           timers = take k (timers ss) @ drop (Suc k) (timers ss)\<rparr>
     else ss)"
| "step NewGame ss = ss\<lparr>live := initGame (live ss)\<rparr>"
| "step ResetScore ss = ss\<lparr>live := resetScore (live ss)\<rparr>"
| "step (SwitchMode mode) ss = ss\<lparr>live := switchMode mode (live ss)\<rparr>"
| "step (SelectOpponent opponentId) ss = ss\<lparr>live := selectOpponent opponentId (live ss)\<rparr>"

definition run :: "event list \<Rightarrow> session \<Rightarrow> session" where
  "run events ss = foldl (\<lambda>s e. step e s) ss events"

definition countOf :: "string \<Rightarrow> board \<Rightarrow> int" where
  "countOf player boardState = int (count_list boardState player)"

section \<open>Auxiliary notions\<close>

text \<open>
  A search with the window \<open>(alpha, beta)\<close> returns \<open>ab\<close> for a position of value \<open>v\<close>:
  the result is exact inside the window, and outside it lies between the value and the
  bound of the window it crossed.
\<close>

definition softBound :: "jsnum \<Rightarrow> jsnum \<Rightarrow> jsnum \<Rightarrow> jsnum \<Rightarrow> bool" where
  "softBound alpha beta v ab = (min v beta \<le> ab \<and> ab \<le> max v alpha)"

text \<open>
  The value the expert tier gives to an empty cell: the result of the search on the board
  with \<^verbatim>\<open>'O'\<close> placed there, as the loop of \<open>getBestMove\<close> computes it.
\<close>

definition moveValue :: "board \<Rightarrow> nat \<Rightarrow> jsnum" where
  "moveValue boardState cellIndex =
    minimax (boardState[cellIndex := ''O'']) 0 False NegInfinity Infinity"

text \<open>
  What the controller keeps true of a session. The board has as many \<^verbatim>\<open>'X'\<close> as \<^verbatim>\<open>'O'\<close>,
  or one more; while the game is not finished, it is the turn of \<^verbatim>\<open>'X'\<close> in the first
  case and of \<^verbatim>\<open>'O'\<close> in the second. A render kept by a thinking timer was taken on the
  turn of \<^verbatim>\<open>'O'\<close>, in a game neither finished nor thinking.
\<close>

definition lead :: "board \<Rightarrow> int" where
  "lead boardState = countOf ''X'' boardState - countOf ''O'' boardState"

definition turnInv :: "game \<Rightarrow> bool" where
  "turnInv state =
    ((lead (board state) = 0 \<or> lead (board state) = 1)
     \<and> (gameFinished state
        \<or> (currentPlayer state = ''X'' \<and> lead (board state) = 0)
        \<or> (currentPlayer state = ''O'' \<and> lead (board state) = 1)))"

definition timerInv :: "game \<Rightarrow> bool" where
  "timerInv render =
    (currentPlayer render = ''O'' \<and> \<not> gameFinished render \<and> \<not> isThinking render
     \<and> lead (board render) = 1)"

definition sessionInv :: "session \<Rightarrow> bool" where
  "sessionInv ss = (turnInv (live ss) \<and> list_all timerInv (timers ss))"

section \<open>Properties of the rules\<close>

lemma elemAt_Some: "elemAt xs i = Some v \<longleftrightarrow> i < length xs \<and> xs ! i = v"
  by (auto simp: elemAt_def)

text \<open>
  Claim C1. \<open>checkWinner\<close> returns a combination exactly when one of the eight triples has
  its three cells equal to the player, and then it returns the first such triple of the
  enumeration (three rows, three columns, two diagonals). For a player symbol, which is
  not the empty string, the three cells of the returned triple are on the board and hold
  that same non-empty symbol.
\<close>

theorem checkWinner_first_combo:
  "(checkWinner b p = Some (x, y, z) \<longleftrightarrow>
      (\<exists>k < length winCombos. winCombos ! k = (x, y, z)
         \<and> elemAt b x = Some p \<and> elemAt b y = Some p \<and> elemAt b z = Some p
         \<and> (\<forall>j < k. \<not> comboWins b p (winCombos ! j))))
   \<and> (checkWinner b p = None \<longleftrightarrow> (\<forall>k < length winCombos. \<not> comboWins b p (winCombos ! k)))
   \<and> winCombos = [(0, 1, 2), (3, 4, 5), (6, 7, 8), (0, 3, 6), (1, 4, 7), (2, 5, 8),
                   (0, 4, 8), (2, 4, 6)]
   \<and> (p \<noteq> '''' \<and> checkWinner b p = Some (x, y, z) \<longrightarrow>
        x < length b \<and> y < length b \<and> z < length b
        \<and> b ! x = p \<and> b ! y = p \<and> b ! z = p \<and> b ! x \<noteq> '''')"
proof -
  have some: "checkWinner b p = Some (x, y, z) \<longleftrightarrow>
      (\<exists>k < length winCombos. winCombos ! k = (x, y, z)
         \<and> elemAt b x = Some p \<and> elemAt b y = Some p \<and> elemAt b z = Some p
         \<and> (\<forall>j < k. \<not> comboWins b p (winCombos ! j)))"
    unfolding checkWinner_def find_Some_iff
    by (auto simp: comboWins_def)
  have none: "checkWinner b p = None \<longleftrightarrow> (\<forall>k < length winCombos. \<not> comboWins b p (winCombos ! k))"
    unfolding checkWinner_def find_None_iff
    by (metis in_set_conv_nth)
  have cells: "p \<noteq> '''' \<and> checkWinner b p = Some (x, y, z) \<longrightarrow>
        x < length b \<and> y < length b \<and> z < length b
        \<and> b ! x = p \<and> b ! y = p \<and> b ! z = p \<and> b ! x \<noteq> ''''"
    using some by (auto simp: elemAt_Some)
  show ?thesis
    using some none cells by (simp add: winCombos_def)
qed

theorem checkWinner_first_combo_witness:
  "checkWinner [''O'', '''', '''', ''X'', ''X'', ''X'', ''O'', ''O'', ''O''] ''O'' = Some (6, 7, 8)
   \<and> ''O'' \<noteq> ''''
   \<and> [''O'', '''', '''', ''X'', ''X'', ''X'', ''O'', ''O'', ''O''] ! 6 = ''O''
   \<and> [''O'', '''', '''', ''X'', ''X'', ''X'', ''O'', ''O'', ''O''] ! 7 = ''O''
   \<and> [''O'', '''', '''', ''X'', ''X'', ''X'', ''O'', ''O'', ''O''] ! 8 = ''O''"
proof -
  have w: "checkWinner [''O'', '''', '''', ''X'', ''X'', ''X'', ''O'', ''O'', ''O''] ''O'' = Some (6, 7, 8)"
    by (simp add: checkWinner_def winCombos_def comboWins_def elemAt_def)
  show ?thesis
    using w checkWinner_first_combo [of "[''O'', '''', '''', ''X'', ''X'', ''X'', ''O'', ''O'', ''O'']" "''O''" 6 7 8]
    by simp
qed

section \<open>Properties of the controller's moves\<close>

lemma makeMove_rejected:
  "gameFinished c \<or> elemAt (board c) i \<noteq> Some '''' \<or> isThinking c \<Longrightarrow> makeMove c i p s = s"
  by (auto simp: makeMove_def)

lemma makeMove_applied:
  assumes "\<not> gameFinished c" "elemAt (board c) i = Some ''''" "\<not> isThinking c"
  shows "makeMove c i p s =
    (case checkWinner ((board c)[i := p]) p of
       Some winCombo \<Rightarrow> handleWin p winCombo (s\<lparr>board := (board c)[i := p]\<rparr>)
     | None \<Rightarrow>
         if length (getEmptyCells ((board c)[i := p])) = 0
         then s\<lparr>board := (board c)[i := p], gameFinished := True\<rparr>
         else s\<lparr>board := (board c)[i := p],
                currentPlayer := (if p = ''X'' then ''O'' else ''X'')\<rparr>)"
  using assms by (simp add: makeMove_def Let_def)

lemma board_handleWin [simp]: "board (handleWin p w s) = board s"
  by (cases w) (simp add: handleWin_def)

lemma board_makeMove_applied:
  assumes "\<not> gameFinished c" "elemAt (board c) i = Some ''''" "\<not> isThinking c"
  shows "board (makeMove c i p s) = (board c)[i := p]"
  using assms by (simp add: makeMove_applied split: option.split)

lemma gameFinished_handleWin [simp]: "gameFinished (handleWin p w s)"
  by (cases w) (simp add: handleWin_def)

lemma isThinking_handleWin [simp]: "isThinking (handleWin p w s) = isThinking s"
  by (cases w) (simp add: handleWin_def)

lemma makeMove_twice:
  assumes "p \<noteq> ''''"
  shows "makeMove (makeMove s i p s) i p (makeMove s i p s) = makeMove s i p s"
proof (cases "gameFinished s \<or> elemAt (board s) i \<noteq> Some '''' \<or> isThinking s")
  case True
  then have "makeMove s i p s = s" by (rule makeMove_rejected)
  then show ?thesis by simp
next
  case False
  then have b: "board (makeMove s i p s) = (board s)[i := p]"
    by (simp add: board_makeMove_applied)
  from False have "i < length (board s)" by (simp add: elemAt_Some)
  with b assms have "elemAt (board (makeMove s i p s)) i \<noteq> Some ''''"
    by (simp add: elemAt_def)
  then show ?thesis by (simp add: makeMove_rejected)
qed

text \<open>
  A click runs \<open>makeMove\<close> in the current render: it changes nothing when the game is
  finished, when the cell is not an empty cell of the board, or while the opponent is
  thinking.
\<close>

lemma handleCellClick_rejected:
  "gameFinished s \<or> elemAt (board s) i \<noteq> Some '''' \<or> isThinking s \<Longrightarrow> handleCellClick i s = s"
  by (simp add: handleCellClick_def makeMove_rejected)

lemma checkWinner_SomeD:
  "checkWinner b p = Some (x, y, z) \<Longrightarrow>
     elemAt b x = Some p \<and> elemAt b y = Some p \<and> elemAt b z = Some p"
  unfolding checkWinner_def by (auto simp: find_Some_iff comboWins_def)

text \<open>
  Claim C6. When \<open>makeMove\<close> is not rejected and the new board has a winning combination
  for the player, the resulting state is finished, \<open>winnerCells\<close> is that combination and
  its cells hold the player's symbol (the status line reads the winner from
  \<^verbatim>\<open>board[winnerCells[0]]\<close>), the player's count is one more than before, and the count
  of every other key is unchanged.
\<close>

theorem makeMove_win_scores:
  assumes "\<not> gameFinished c" and "elemAt (board c) i = Some ''''" and "\<not> isThinking c"
    and "checkWinner ((board c)[i := p]) p = Some (x, y, z)"
  shows "gameFinished (makeMove c i p s)
    \<and> winnerCells (makeMove c i p s) = [x, y, z]
    \<and> board (makeMove c i p s) = (board c)[i := p]
    \<and> elemAt (board (makeMove c i p s)) x = Some p
    \<and> elemAt (board (makeMove c i p s)) y = Some p
    \<and> elemAt (board (makeMove c i p s)) z = Some p
    \<and> scores (makeMove c i p s) p = map_option (\<lambda>n. n + 1) (scores s p)
    \<and> (\<forall>q. q \<noteq> p \<longrightarrow> scores (makeMove c i p s) q = scores s q)
    \<and> currentPlayer (makeMove c i p s) = currentPlayer s"
proof -
  have m: "makeMove c i p s = handleWin p (x, y, z) (s\<lparr>board := (board c)[i := p]\<rparr>)"
    using assms by (simp add: makeMove_applied)
  have cells: "elemAt ((board c)[i := p]) x = Some p \<and> elemAt ((board c)[i := p]) y = Some p
      \<and> elemAt ((board c)[i := p]) z = Some p"
    using assms(4) by (rule checkWinner_SomeD)
  show ?thesis
    unfolding m using cells by (simp add: handleWin_def)
qed

theorem makeMove_win_scores_witness:
  "\<not> gameFinished (initialGame\<lparr>board := [''X'', ''X'', '''', ''O'', ''O'', '''', '''', '''', '''']\<rparr>)
   \<and> gameFinished (makeMove (initialGame\<lparr>board := [''X'', ''X'', '''', ''O'', ''O'', '''', '''', '''', '''']\<rparr>)
        2 ''X'' (initialGame\<lparr>board := [''X'', ''X'', '''', ''O'', ''O'', '''', '''', '''', '''']\<rparr>))
   \<and> winnerCells (makeMove (initialGame\<lparr>board := [''X'', ''X'', '''', ''O'', ''O'', '''', '''', '''', '''']\<rparr>)
        2 ''X'' (initialGame\<lparr>board := [''X'', ''X'', '''', ''O'', ''O'', '''', '''', '''', '''']\<rparr>)) = [0, 1, 2]
   \<and> scores (makeMove (initialGame\<lparr>board := [''X'', ''X'', '''', ''O'', ''O'', '''', '''', '''', '''']\<rparr>)
        2 ''X'' (initialGame\<lparr>board := [''X'', ''X'', '''', ''O'', ''O'', '''', '''', '''', '''']\<rparr>)) ''X'' = Some 1
   \<and> scores (makeMove (initialGame\<lparr>board := [''X'', ''X'', '''', ''O'', ''O'', '''', '''', '''', '''']\<rparr>)
        2 ''X'' (initialGame\<lparr>board := [''X'', ''X'', '''', ''O'', ''O'', '''', '''', '''', '''']\<rparr>)) ''O'' = Some 0"
proof -
  let ?s = "initialGame\<lparr>board := [''X'', ''X'', '''', ''O'', ''O'', '''', '''', '''', '''']\<rparr>"
  have h1: "\<not> gameFinished ?s" by (simp add: initialGame_def)
  have h2: "elemAt (board ?s) 2 = Some ''''" by (simp add: elemAt_def)
  have h3: "\<not> isThinking ?s" by (simp add: initialGame_def)
  have h4: "checkWinner ((board ?s)[2 := ''X'']) ''X'' = Some (0, 1, 2)"
    by (simp add: checkWinner_def winCombos_def comboWins_def elemAt_def)
  show ?thesis
    using h1 makeMove_win_scores [OF h1 h2 h3 h4, of ?s]
    by (simp add: initialGame_def)
qed

section \<open>Properties of the move selection\<close>

lemma set_getEmptyCells: "c \<in> set (getEmptyCells b) \<longleftrightarrow> c < length b \<and> b ! c = ''''"
  by (auto simp: getEmptyCells_def)

lemma pick_member:
  assumes "xs \<noteq> []" and "0 \<le> r" and "r < 1"
  shows "\<exists>i. pick xs r = Cell i \<and> i \<in> set xs"
proof -
  have len: "0 < real (length xs)" using assms(1) by simp
  have "r * real (length xs) < real (length xs)"
    using assms(3) len by simp
  then have "\<lfloor>r * real (length xs)\<rfloor> < int (length xs)"
    by (simp add: floor_less_iff)
  moreover have "0 \<le> \<lfloor>r * real (length xs)\<rfloor>"
    using assms(2) by simp
  ultimately have lt: "nat \<lfloor>r * real (length xs)\<rfloor> < length xs" by linarith
  then have "pick xs r = Cell (xs ! nat \<lfloor>r * real (length xs)\<rfloor>)"
    by (simp add: pick_def elemAt_def toMove_def)
  with lt show ?thesis by simp
qed

lemma find_SomeD: "find P xs = Some x \<Longrightarrow> x \<in> set xs \<and> P x"
  by (auto simp: find_Some_iff)

lemma find_NoneD: "find P xs = None \<Longrightarrow> x \<in> set xs \<Longrightarrow> \<not> P x"
  by (auto simp: find_None_iff)

lemma find_not_None: "x \<in> set xs \<Longrightarrow> P x \<Longrightarrow> find P xs \<noteq> None"
  by (auto simp: find_None_iff)

lemma getStrategicMove_choice:
  assumes "getEmptyCells b \<noteq> []" and "0 \<le> r" and "r < 1"
  shows "\<exists>i. getStrategicMove b r = Cell i \<and> i < length b \<and> b ! i = ''''
    \<and> (if \<exists>c \<in> set (getEmptyCells b). checkWinner (b[c := ''O'']) ''O'' \<noteq> None
        then checkWinner (b[i := ''O'']) ''O'' \<noteq> None
        else if \<exists>c \<in> set (getEmptyCells b). checkWinner (b[c := ''X'']) ''X'' \<noteq> None
        then checkWinner (b[i := ''X'']) ''X'' \<noteq> None
        else if elemAt b 4 = Some '''' then i = 4
        else if \<exists>c \<in> {0, 2, 6, 8}. elemAt b c = Some '''' then i \<in> {0, 2, 6, 8}
        else True)"
proof (cases "find (\<lambda>c. checkWinner (b[c := ''O'']) ''O'' \<noteq> None) (getEmptyCells b)")
  case (Some i)
  then have "getStrategicMove b r = Cell i" by (simp add: getStrategicMove_def)
  moreover from Some have "i \<in> set (getEmptyCells b)" "checkWinner (b[i := ''O'']) ''O'' \<noteq> None"
    by (auto dest: find_SomeD)
  ultimately show ?thesis by (auto simp: set_getEmptyCells)
next
  case noO: None
  then have nO: "\<not> (\<exists>c \<in> set (getEmptyCells b). checkWinner (b[c := ''O'']) ''O'' \<noteq> None)"
    by (auto dest: find_NoneD)
  show ?thesis
  proof (cases "find (\<lambda>c. checkWinner (b[c := ''X'']) ''X'' \<noteq> None) (getEmptyCells b)")
    case (Some i)
    then have "getStrategicMove b r = Cell i" using noO by (simp add: getStrategicMove_def)
    moreover from Some have "i \<in> set (getEmptyCells b)" "checkWinner (b[i := ''X'']) ''X'' \<noteq> None"
      by (auto dest: find_SomeD)
    ultimately show ?thesis using nO by (auto simp: set_getEmptyCells)
  next
    case noX: None
    then have nX: "\<not> (\<exists>c \<in> set (getEmptyCells b). checkWinner (b[c := ''X'']) ''X'' \<noteq> None)"
      by (auto dest: find_NoneD)
    show ?thesis
    proof (cases "elemAt b 4 = Some ''''")
      case True
      then have "getStrategicMove b r = Cell 4" using noO noX by (simp add: getStrategicMove_def)
      then show ?thesis using nO nX True by (simp add: elemAt_Some)
    next
      case False
      let ?cs = "filter (\<lambda>i. elemAt b i = Some '''') [0, 2, 6, 8]"
      show ?thesis
      proof (cases "?cs = []")
        case True
        then have "\<forall>x \<in> set [0, 2, 6, 8]. \<not> elemAt b x = Some ''''"
          by (simp only: filter_empty_conv)
        then have nc: "\<not> (\<exists>c \<in> {0, 2, 6, 8}. elemAt b c = Some '''')"
          by simp
        from True have g: "getStrategicMove b r = pick (getEmptyCells b) r"
          using noO noX False by (simp add: getStrategicMove_def Let_def)
        from pick_member [OF assms] obtain i
          where "pick (getEmptyCells b) r = Cell i" "i \<in> set (getEmptyCells b)" by blast
        then show ?thesis using g nO nX False nc by (auto simp: set_getEmptyCells)
      next
        case ne: False
        then have c: "\<exists>c \<in> {0, 2, 6, 8}. elemAt b c = Some ''''"
          unfolding filter_empty_conv by simp
        from ne have g: "getStrategicMove b r = pick ?cs r"
          using noO noX False by (simp add: getStrategicMove_def Let_def)
        from pick_member [OF ne assms(2,3)] obtain i
          where i: "pick ?cs r = Cell i" "i \<in> set ?cs" by blast
        from i(2) have "i \<in> set [0, 2, 6, 8] \<and> elemAt b i = Some ''''"
          by (simp only: set_filter mem_Collect_eq)
        then have "i \<in> {0, 2, 6, 8}" "elemAt b i = Some ''''" by simp_all
        then show ?thesis using g i(1) nO nX False c by (auto simp: elemAt_Some)
      qed
    qed
  qed
qed


text \<open>
  Claim C4. On a board with an empty cell and with a draw in \<open>[0, 1)\<close>, \<open>getStrategicMove\<close>
  returns an empty cell, chosen by priority: a cell that wins for \<^verbatim>\<open>'O'\<close> if there is
  one; otherwise a cell that would win for \<^verbatim>\<open>'X'\<close> if there is one; otherwise the center
  if it is empty; otherwise one of the corners 0, 2, 6, 8 if one is empty; otherwise
  some empty cell.
\<close>

theorem getStrategicMove_priority:
  assumes "getEmptyCells b \<noteq> []" and "0 \<le> r" and "r < 1"
  shows "\<exists>i. getStrategicMove b r = Cell i \<and> i < length b \<and> b ! i = ''''
    \<and> (if \<exists>c \<in> set (getEmptyCells b). checkWinner (b[c := ''O'']) ''O'' \<noteq> None
        then checkWinner (b[i := ''O'']) ''O'' \<noteq> None
        else if \<exists>c \<in> set (getEmptyCells b). checkWinner (b[c := ''X'']) ''X'' \<noteq> None
        then checkWinner (b[i := ''X'']) ''X'' \<noteq> None
        else if elemAt b 4 = Some '''' then i = 4
        else if \<exists>c \<in> {0, 2, 6, 8}. elemAt b c = Some '''' then i \<in> {0, 2, 6, 8}
        else True)"
  using assms by (rule getStrategicMove_choice)

theorem getStrategicMove_priority_witness:
  "getEmptyCells [''X'', ''X'', '''', ''O'', '''', '''', '''', '''', ''O''] \<noteq> []
   \<and> (0 :: real) \<le> 1 / 2 \<and> (1 / 2 :: real) < 1
   \<and> (\<exists>i. getStrategicMove [''X'', ''X'', '''', ''O'', '''', '''', '''', '''', ''O''] (1 / 2) = Cell i
         \<and> i < length [''X'', ''X'', '''', ''O'', '''', '''', '''', '''', ''O'']
         \<and> [''X'', ''X'', '''', ''O'', '''', '''', '''', '''', ''O''] ! i = '''')"
proof -
  have h: "getEmptyCells [''X'', ''X'', '''', ''O'', '''', '''', '''', '''', ''O''] \<noteq> []"
    by (simp add: getEmptyCells_def upt_rec)
  have r: "(0 :: real) \<le> 1 / 2" "(1 / 2 :: real) < 1" by simp_all
  from getStrategicMove_priority [OF h r] obtain i where
    "getStrategicMove [''X'', ''X'', '''', ''O'', '''', '''', '''', '''', ''O''] (1 / 2) = Cell i
      \<and> i < length [''X'', ''X'', '''', ''O'', '''', '''', '''', '''', ''O'']
      \<and> [''X'', ''X'', '''', ''O'', '''', '''', '''', '''', ''O''] ! i = ''''"
    by blast
  then show ?thesis using h r by blast
qed

lemma getBestMoveAI_eq:
  "getEmptyCells b \<noteq> [] \<Longrightarrow> getBestMoveAI b r = getStrategicMove b r"
  unfolding getBestMoveAI_def getStrategicMove_def simulateMove_def by simp

lemma bestMoveLoop_fst:
  "fst (bestMoveLoop b cs bm bv) = bm \<or> (\<exists>c \<in> set cs. fst (bestMoveLoop b cs bm bv) = int c)"
proof (induction cs arbitrary: bm bv)
  case Nil
  show ?case by simp
next
  case (Cons c cs)
  show ?case
    using Cons.IH [of "int c" "minimax (b[c := ''O'']) 0 False NegInfinity Infinity"]
      Cons.IH [of bm bv]
    by (auto simp: Let_def)
qed

lemma expert_member:
  assumes "cs \<noteq> []"
  shows "\<exists>i. (let bestMove = fst (bestMoveLoop b cs (- 1) NegInfinity) in
              if bestMove \<noteq> - 1 then Inr (Cell (nat bestMove))
              else Inr (toMove (elemAt cs 0))) = (Inr (Cell i) :: error + move) \<and> i \<in> set cs"
proof (cases "fst (bestMoveLoop b cs (- 1) NegInfinity) = - 1")
  case True
  from assms have "elemAt cs 0 = Some (cs ! 0)" "cs ! 0 \<in> set cs"
    by (simp_all add: elemAt_def)
  with True show ?thesis by (simp add: toMove_def)
next
  case False
  with bestMoveLoop_fst [of b cs "- 1" NegInfinity] obtain c
    where "c \<in> set cs" "fst (bestMoveLoop b cs (- 1) NegInfinity) = int c" by blast
  with False show ?thesis by (simp add: Let_def)
qed

lemma getStrategicMove_member:
  assumes "getEmptyCells b \<noteq> []" and "0 \<le> r" and "r < 1"
  shows "\<exists>i. getStrategicMove b r = Cell i \<and> i \<in> set (getEmptyCells b)"
  using getStrategicMove_choice [OF assms] by (auto simp: set_getEmptyCells)

lemma getBestMove_member:
  assumes "getEmptyCells b \<noteq> []" and "opponents sel = Some opp"
    and "validDraw r1" and "validDraw r2" and "validDraw r3"
  shows "\<exists>i. getBestMove sel r1 r2 r3 b = Inr (Cell i) \<and> i \<in> set (getEmptyCells b)"
proof -
  have p2: "\<exists>i. pick (getEmptyCells b) r2 = Cell i \<and> i \<in> set (getEmptyCells b)"
    using assms by (simp add: pick_member validDraw_def)
  have p3: "\<exists>i. pick (getEmptyCells b) r3 = Cell i \<and> i \<in> set (getEmptyCells b)"
    using assms by (simp add: pick_member validDraw_def)
  have s2: "\<exists>i. getStrategicMove b r2 = Cell i \<and> i \<in> set (getEmptyCells b)"
    using assms by (simp add: getStrategicMove_member validDraw_def)
  have s3: "\<exists>i. getStrategicMove b r3 = Cell i \<and> i \<in> set (getEmptyCells b)"
    using assms by (simp add: getStrategicMove_member validDraw_def)
  have e: "\<exists>i. (let bestMove = fst (bestMoveLoop b (getEmptyCells b) (- 1) NegInfinity) in
              if bestMove \<noteq> - 1 then Inr (Cell (nat bestMove))
              else Inr (toMove (elemAt (getEmptyCells b) 0))) = (Inr (Cell i) :: error + move)
            \<and> i \<in> set (getEmptyCells b)"
    using assms(1) by (rule expert_member)
  have d: "\<exists>i. toMove (elemAt (getEmptyCells b) 0) = Cell i \<and> i \<in> set (getEmptyCells b)"
    using assms(1) by (simp add: elemAt_def toMove_def)
  have "getBestMove sel r1 r2 r3 b =
      (if r1 < errorRate opp then Inr (pick (getEmptyCells b) r2)
       else if difficulty opp = ''easy'' then
         (if r2 < 6 / 10 then Inr (getStrategicMove b r3)
          else Inr (pick (getEmptyCells b) r3))
       else if difficulty opp = ''medium'' then Inr (getStrategicMove b r2)
       else if difficulty opp = ''expert'' then
         (let bestMove = fst (bestMoveLoop b (getEmptyCells b) (- 1) NegInfinity) in
          if bestMove \<noteq> - 1 then Inr (Cell (nat bestMove))
          else Inr (toMove (elemAt (getEmptyCells b) 0)))
       else Inr (toMove (elemAt (getEmptyCells b) 0)))"
    using assms(1,2) by (simp add: getBestMove_def Let_def)
  then show ?thesis
    using p2 p3 s2 s3 e d by (simp split: if_splits)
qed

text \<open>
  Claim C10. On a board with an empty cell, for every opponent of the table and every
  three draws in \<open>[0, 1)\<close>, \<open>getBestMove\<close> returns a cell index that is inside the board
  and whose cell is empty; on a board of nine cells the index is at most 8.
\<close>

theorem getBestMove_empty_cell:
  assumes "getEmptyCells b \<noteq> []" and "opponents sel = Some opp"
    and "validDraw r1" and "validDraw r2" and "validDraw r3"
  shows "\<exists>i. getBestMove sel r1 r2 r3 b = Inr (Cell i) \<and> i < length b \<and> b ! i = ''''
           \<and> (length b = 9 \<longrightarrow> i \<le> 8)"
  using getBestMove_member [OF assms] by (auto simp: set_getEmptyCells)


theorem getBestMove_empty_cell_witness:
  "getEmptyCells [''X'', ''O'', ''X'', '''', ''O'', '''', '''', ''X'', ''''] \<noteq> []
   \<and> opponents ''victor''
       = Some \<lparr>name = ''Victor'', difficulty = ''expert'',
               description = ''Master strategist, nearly unbeatable'',
               thinkingTime = (1500, 3000), errorRate = 5 / 100\<rparr>
   \<and> validDraw (1 / 2)
   \<and> (\<exists>i. getBestMove ''victor'' (1 / 2) (1 / 2) (1 / 2)
              [''X'', ''O'', ''X'', '''', ''O'', '''', '''', ''X'', ''''] = Inr (Cell i)
         \<and> i \<le> 8
         \<and> [''X'', ''O'', ''X'', '''', ''O'', '''', '''', ''X'', ''''] ! i = '''')"
proof -
  have h: "getEmptyCells [''X'', ''O'', ''X'', '''', ''O'', '''', '''', ''X'', ''''] \<noteq> []"
    by (simp add: getEmptyCells_def upt_rec)
  have o: "opponents ''victor''
       = Some \<lparr>name = ''Victor'', difficulty = ''expert'',
               description = ''Master strategist, nearly unbeatable'',
               thinkingTime = (1500, 3000), errorRate = 5 / 100\<rparr>"
    by (simp add: opponents_def)
  have r: "validDraw (1 / 2)" by (simp add: validDraw_def)
  from getBestMove_empty_cell [OF h o r r r] obtain i where
    "getBestMove ''victor'' (1 / 2) (1 / 2) (1 / 2)
        [''X'', ''O'', ''X'', '''', ''O'', '''', '''', ''X'', ''''] = Inr (Cell i)
      \<and> i \<le> 8 \<and> [''X'', ''O'', ''X'', '''', ''O'', '''', '''', ''X'', ''''] ! i = ''''"
    by auto
  then show ?thesis using h o r by blast
qed

text \<open>
  Claim C9, as the code has it. On a board with no empty cell \<open>getBestMove\<close> returns
  \<^verbatim>\<open>null\<close>, whatever the opponent and the draws, and raises nothing; so does the selection
  function of the earlier version. The timer's callback then makes no move: it only
  clears \<open>isThinking\<close>.
\<close>

theorem getBestMove_full_board:
  assumes "getEmptyCells b = []"
  shows "getBestMove sel r1 r2 r3 b = Inr Null
    \<and> getBestMoveAI b r = Null
    \<and> (board c = b \<longrightarrow> thinkingDone c r1 r2 r3 s = s\<lparr>isThinking := False\<rparr>)"
  using assms by (simp add: getBestMove_def getBestMoveAI_def thinkingDone_def)

theorem getBestMove_full_board_witness:
  "getEmptyCells [''X'', ''O'', ''X'', ''X'', ''O'', ''O'', ''O'', ''X'', ''X''] = []
   \<and> getBestMove ''maya'' (1 / 2) (1 / 2) (1 / 2)
        [''X'', ''O'', ''X'', ''X'', ''O'', ''O'', ''O'', ''X'', ''X''] = Inr Null
   \<and> getBestMoveAI [''X'', ''O'', ''X'', ''X'', ''O'', ''O'', ''O'', ''X'', ''X''] (1 / 2) = Null"
proof -
  have h: "getEmptyCells [''X'', ''O'', ''X'', ''X'', ''O'', ''O'', ''O'', ''X'', ''X''] = []"
    by (simp add: getEmptyCells_def upt_rec)
  show ?thesis
    using h getBestMove_full_board [OF h, of "''maya''" "1 / 2" "1 / 2" "1 / 2" "1 / 2"]
    by simp
qed

text \<open>
  Claim C9 as stated fails: on a full board the call does not end in an error, it
  returns \<^verbatim>\<open>null\<close>.
\<close>

theorem getBestMove_full_board_counterexample:
  "getEmptyCells [''X'', ''O'', ''X'', ''X'', ''O'', ''O'', ''O'', ''X'', ''X''] = []
   \<and> \<not> isl (getBestMove ''victor'' 0 0 0
              [''X'', ''O'', ''X'', ''X'', ''O'', ''O'', ''O'', ''X'', ''X''])
   \<and> getBestMove ''victor'' 0 0 0
        [''X'', ''O'', ''X'', ''X'', ''O'', ''O'', ''O'', ''X'', ''X''] = Inr Null"
  by (simp add: getBestMove_def getEmptyCells_def upt_rec)

section \<open>Properties of the search\<close>

declare minimax.simps [simp del] plainMinimax.simps [simp del]

lemma NegInfinity_le [simp]: "NegInfinity \<le> x"
  by simp

lemma le_Infinity [simp]: "x \<le> Infinity"
  by (cases x) simp_all

lemma max_NegInfinity [simp]: "max NegInfinity x = x" "max x NegInfinity = x"
  by (simp_all add: max_def antisym)

lemma min_Infinity [simp]: "min Infinity x = x" "min x Infinity = x"
  by (simp_all add: min_def antisym)

lemma softBound_refl [simp]: "softBound a b v v"
  by (simp add: softBound_def)

lemma softBound_max_step:
  assumes "a < b" and "softBound a b v1 e"
    and "\<not> b \<le> max a e \<Longrightarrow> softBound (max a e) b V R"
  shows "softBound a b (max v1 V) (if b \<le> max a e then e else max e R)"
proof (cases "b \<le> max a e")
  case True
  then have "b \<le> e" using assms(1) by (auto simp: le_max_iff_disj)
  then show ?thesis using True assms(1,2)
    by (auto simp: softBound_def min_le_iff_disj le_max_iff_disj)
next
  case False
  then have lt: "a < b" "e < b" by (simp_all add: not_le)
  from assms(3) [OF False] have IH: "min V b \<le> R" "R \<le> max V (max a e)"
    by (simp_all add: softBound_def)
  from assms(2) have h: "min v1 b \<le> e" "e \<le> max v1 a" by (simp_all add: softBound_def)
  have 1: "min (max v1 V) b \<le> max e R"
    using IH(1) h(1) lt by (auto simp: min_le_iff_disj le_max_iff_disj)
  have 2: "max e R \<le> max (max v1 V) a"
    using IH(2) h(2) by (auto simp: le_max_iff_disj)
  show ?thesis using False 1 2 by (simp add: softBound_def)
qed

lemma softBound_min_step:
  assumes "a < b" and "softBound a b v1 e"
    and "\<not> min b e \<le> a \<Longrightarrow> softBound a (min b e) V R"
  shows "softBound a b (min v1 V) (if min b e \<le> a then e else min e R)"
proof (cases "min b e \<le> a")
  case True
  then have "e \<le> a" using assms(1) by (auto simp: min_le_iff_disj)
  then show ?thesis using True assms(1,2)
    by (auto simp: softBound_def min_le_iff_disj le_max_iff_disj)
next
  case False
  then have lt: "a < b" "a < e" by (simp_all add: not_le)
  from assms(3) [OF False] have IH: "min V (min b e) \<le> R" "R \<le> max V a"
    by (simp_all add: softBound_def)
  from assms(2) have h: "min v1 b \<le> e" "e \<le> max v1 a" by (simp_all add: softBound_def)
  have 1: "min (min v1 V) b \<le> min e R"
    using IH(1) h(1) by (auto simp: min_le_iff_disj)
  have 2: "min e R \<le> max (min v1 V) a"
    using IH(2) h(2) lt by (auto simp: min_le_iff_disj le_max_iff_disj)
  show ?thesis using False 1 2 by (simp add: softBound_def)
qed

lemma softBound_full: "softBound NegInfinity Infinity v ab \<Longrightarrow> ab = v"
  by (auto simp: softBound_def)

lemma maxLoop_acc:
  "maxLoop b d cs m al be = max m (maxLoop b d cs NegInfinity al be)"
proof (induction cs arbitrary: m al)
  case Nil
  show ?case by simp
next
  case (Cons c cs)
  let ?ev = "minimax (b[c := ''O'']) (d + 1) False al be"
  show ?case
    using Cons.IH [of "max m ?ev" "max al ?ev"] Cons.IH [of ?ev "max al ?ev"]
    by (simp add: Let_def max.assoc)
qed

lemma minLoop_acc:
  "minLoop b d cs m al be = min m (minLoop b d cs Infinity al be)"
proof (induction cs arbitrary: m be)
  case Nil
  show ?case by simp
next
  case (Cons c cs)
  let ?ev = "minimax (b[c := ''X'']) (d + 1) True al be"
  show ?case
    using Cons.IH [of "min m ?ev" "min be ?ev"] Cons.IH [of ?ev "min be ?ev"]
    by (simp add: Let_def min.assoc)
qed


lemma softBound_search:
  fixes ev :: jsnum
  shows "al < be \<Longrightarrow> softBound al be (plainMinimax b d m) (minimax b d m al be)"
    and "al < be \<Longrightarrow> softBound al be (plainMax b d cs) (maxLoop b d cs NegInfinity al be)"
    and "al < be \<Longrightarrow> softBound al be (plainMin b d cs) (minLoop b d cs Infinity al be)"
proof (induction b d m al be and b d cs ev al be and b d cs ev al be
       rule: minimax_maxLoop_minLoop.induct)
  case (1 b d m al be)
  then show ?case
    by (simp add: minimax.simps [of b d m al be] plainMinimax.simps [of b d m])
next
  case (2 b d ev al be)
  show ?case by simp
next
  case (3 b d c cs ev al be)
  let ?e = "minimax (b[c := ''O'']) (d + 1) False al be"
  have e: "softBound al be (plainMinimax (b[c := ''O'']) (d + 1) False) ?e"
    using "3.IH"(1) "3.prems" by simp
  have r: "\<not> be \<le> max al ?e \<Longrightarrow>
      softBound (max al ?e) be (plainMax b d cs) (maxLoop b d cs NegInfinity (max al ?e) be)"
    using "3.IH"(2) [OF refl] by (simp add: not_le)
  have "maxLoop b d (c # cs) NegInfinity al be =
      (if be \<le> max al ?e then ?e else max ?e (maxLoop b d cs NegInfinity (max al ?e) be))"
    using maxLoop_acc [of b d cs ?e "max al ?e" be] by (simp add: Let_def)
  then show ?case
    using softBound_max_step [OF "3.prems" e r] by simp
next
  case (4 b d ev al be)
  show ?case by simp
next
  case (5 b d c cs ev al be)
  let ?e = "minimax (b[c := ''X'']) (d + 1) True al be"
  have e: "softBound al be (plainMinimax (b[c := ''X'']) (d + 1) True) ?e"
    using "5.IH"(1) "5.prems" by simp
  have r: "\<not> min be ?e \<le> al \<Longrightarrow>
      softBound al (min be ?e) (plainMin b d cs) (minLoop b d cs Infinity al (min be ?e))"
    using "5.IH"(2) [OF refl] by (simp add: not_le)
  have "minLoop b d (c # cs) Infinity al be =
      (if min be ?e \<le> al then ?e else min ?e (minLoop b d cs Infinity al (min be ?e)))"
    using minLoop_acc [of b d cs ?e al "min be ?e"] by (simp add: Let_def)
  then show ?case
    using softBound_min_step [OF "5.prems" e r] by simp
qed

text \<open>
  Claim C7. Called with the full window, \<open>alpha = -Infinity\<close> and \<open>beta = Infinity\<close>, the
  search with pruning returns the value of the search without pruning, for every board,
  depth and side to move.
\<close>

theorem minimax_pruning_exact:
  "minimax b d m NegInfinity Infinity = plainMinimax b d m"
proof -
  have "NegInfinity < Infinity" by (simp add: less_jsnum_def)
  then have "softBound NegInfinity Infinity (plainMinimax b d m) (minimax b d m NegInfinity Infinity)"
    by (rule softBound_search(1))
  then show ?thesis by (rule softBound_full)
qed

theorem minimax_pruning_exact_witness:
  "minimax [''X'', ''O'', ''X'', '''', ''O'', '''', '''', ''X'', ''''] 0 True NegInfinity Infinity
     = plainMinimax [''X'', ''O'', ''X'', '''', ''O'', '''', '''', ''X'', ''''] 0 True"
  by (rule minimax_pruning_exact)

lemma fuel_enough:
  fixes ev :: jsnum
  shows "nat (7 - d) < n \<Longrightarrow> minimaxFuel n b d m al be = Some (minimax b d m al be)"
    and "nat (6 - d) < n \<Longrightarrow> maxLoopFuel n b d cs ev al be = Some (maxLoop b d cs ev al be)"
    and "nat (6 - d) < n \<Longrightarrow> minLoopFuel n b d cs ev al be = Some (minLoop b d cs ev al be)"
proof (induction b d m al be and b d cs ev al be and b d cs ev al be arbitrary: n and n and n
       rule: minimax_maxLoop_minLoop.induct)
  case (1 b d m al be)
  from "1.prems" obtain k where n: "n = Suc k" by (cases n) simp_all
  show ?case
  proof (cases "checkWinner b ''O'' \<noteq> None \<or> checkWinner b ''X'' \<noteq> None
                \<or> length (getEmptyCells b) = 0 \<or> d > 6")
    case True
    then show ?thesis unfolding n by (auto simp: minimax.simps [of b d m al be])
  next
    case False
    then have "d \<le> 6" by simp
    then have k: "nat (6 - d) < k" using "1.prems" n by linarith
    from False have c: "\<not> checkWinner b ''O'' \<noteq> None" "\<not> checkWinner b ''X'' \<noteq> None"
      "\<not> length (getEmptyCells b) = 0" "\<not> 6 < d" by simp_all
    show ?thesis
    proof (cases m)
      case True
      with "1.IH"(1) [OF c True k] False show ?thesis
        unfolding n by (simp add: minimax.simps [of b d])
    next
      case m: False
      with "1.IH"(2) [OF c m k] False show ?thesis
        unfolding n by (simp add: minimax.simps [of b d])
    qed
  qed
next
  case (2 b d ev al be)
  show ?case by simp
next
  case (3 b d c cs ev al be)
  let ?e = "minimax (b[c := ''O'']) (d + 1) False al be"
  have e: "minimaxFuel n (b[c := ''O'']) (d + 1) False al be = Some ?e"
    using "3.IH"(1) [of n] "3.prems" by simp
  show ?case
    using e "3.IH"(2) [OF refl _ "3.prems"] by (simp add: Let_def)
next
  case (4 b d ev al be)
  show ?case by simp
next
  case (5 b d c cs ev al be)
  let ?e = "minimax (b[c := ''X'']) (d + 1) True al be"
  have e: "minimaxFuel n (b[c := ''X'']) (d + 1) True al be = Some ?e"
    using "5.IH"(1) [of n] "5.prems" by simp
  show ?case
    using e "5.IH"(2) [OF refl _ "5.prems"] by (simp add: Let_def)
qed

lemma getEmptyCells_update:
  assumes "p \<noteq> ''''"
  shows "getEmptyCells (b[c := p]) = filter (\<lambda>i. i \<noteq> c) (getEmptyCells b)"
proof (cases "c < length b")
  case True
  then show ?thesis
    using assms unfolding getEmptyCells_def
    by (auto simp: nth_list_update intro!: filter_cong)
next
  case False
  then have "filter (\<lambda>i. i \<noteq> c) (getEmptyCells b) = getEmptyCells b"
    unfolding getEmptyCells_def by (auto intro!: filter_cong)
  moreover from False have "b[c := p] = b" by (simp add: list_update_beyond)
  ultimately show ?thesis by simp
qed

lemma getEmptyCells_shrink:
  assumes "c \<in> set (getEmptyCells b)" and "p \<noteq> ''''"
  shows "length (getEmptyCells (b[c := p])) < length (getEmptyCells b)"
  unfolding getEmptyCells_update [OF assms(2)]
  using assms(1) by (simp add: length_filter_less)

text \<open>
  Claim C8. \<open>minimax\<close> returns on every board, depth, side to move and window: a call at
  depth \<open>d\<close> nests at most \<open>8 - d\<close> calls (one call when the depth is past 6), so the run
  with that bound returns \<open>Some\<close> value, the value of \<open>minimax\<close>. Each nested call is one
  ply deeper, on a board with one empty cell fewer.
\<close>

theorem minimax_terminates:
  "minimaxFuel (Suc (nat (7 - d))) b d m al be = Some (minimax b d m al be)
   \<and> (nat (7 - d) < n \<longrightarrow> minimaxFuel n b d m al be = Some (minimax b d m al be))
   \<and> (c \<in> set (getEmptyCells b) \<and> p \<noteq> '''' \<longrightarrow>
        length (getEmptyCells (b[c := p])) < length (getEmptyCells b))"
  using fuel_enough(1) [of d "Suc (nat (7 - d))" b m al be] fuel_enough(1) [of d n b m al be]
    getEmptyCells_shrink [of c b p]
  by simp

theorem minimax_terminates_witness:
  "minimaxFuel 8 (replicate 9 '''') 0 False NegInfinity Infinity
     = Some (minimax (replicate 9 '''') 0 False NegInfinity Infinity)
   \<and> 4 \<in> set (getEmptyCells (replicate 9 '''')) \<and> ''O'' \<noteq> ''''
   \<and> length (getEmptyCells ((replicate 9 '''')[4 := ''O''])) < length (getEmptyCells (replicate 9 ''''))"
proof -
  have h: "4 \<in> set (getEmptyCells (replicate 9 ''''))"
    by (simp add: set_getEmptyCells)
  show ?thesis
    using h minimax_terminates [of 0 "replicate 9 ''''" False NegInfinity Infinity 8 4 "''O''"]
    by simp
qed

lemma value_le_9:
  fixes ev :: jsnum
  shows "1 \<le> d \<Longrightarrow> d \<le> 19 \<Longrightarrow> minimax b d m al be \<le> Num 9"
    and "0 \<le> d \<Longrightarrow> d \<le> 18 \<Longrightarrow> maxLoop b d cs ev al be \<le> max ev (Num 9)"
    and "0 \<le> d \<Longrightarrow> d \<le> 18 \<Longrightarrow> cs \<noteq> [] \<or> ev \<le> Num 9 \<Longrightarrow> minLoop b d cs ev al be \<le> Num 9"
proof (induction b d m al be and b d cs ev al be and b d cs ev al be
       rule: minimax_maxLoop_minLoop.induct)
  case (1 b d m al be)
  show ?case
  proof (cases "checkWinner b ''O'' \<noteq> None \<or> checkWinner b ''X'' \<noteq> None
                \<or> length (getEmptyCells b) = 0 \<or> d > 6")
    case True
    then show ?thesis using "1.prems" by (auto simp: minimax.simps [of b d])
  next
    case False
    then have c: "\<not> checkWinner b ''O'' \<noteq> None" "\<not> checkWinner b ''X'' \<noteq> None"
      "\<not> length (getEmptyCells b) = 0" "\<not> 6 < d" by simp_all
    from c(4) "1.prems" have d: "0 \<le> d" "d \<le> 18" by simp_all
    show ?thesis
    proof (cases m)
      case True
      with "1.IH"(1) [OF c True d] False show ?thesis
        by (simp add: minimax.simps [of b d])
    next
      case m: False
      from c(3) have "getEmptyCells b \<noteq> [] \<or> Infinity \<le> Num 9" by simp
      with "1.IH"(2) [OF c m d] m False show ?thesis
        by (simp add: minimax.simps [of b d])
    qed
  qed
next
  case (2 b d ev al be)
  show ?case by simp
next
  case (3 b d c cs ev al be)
  let ?e = "minimax (b[c := ''O'']) (d + 1) False al be"
  have e: "?e \<le> Num 9" using "3.IH"(1) "3.prems" by simp
  show ?case
  proof (cases "be \<le> max al ?e")
    case True
    then show ?thesis using e by (auto simp: Let_def le_max_iff_disj)
  next
    case False
    from "3.IH"(2) [OF refl False "3.prems"]
    have "maxLoop b d cs (max ev ?e) (max al ?e) be \<le> max (max ev ?e) (Num 9)" .
    also have "\<dots> = max ev (Num 9)" using e by (simp add: max.assoc max.absorb2)
    finally show ?thesis using False by (simp add: Let_def)
  qed
next
  case (4 b d ev al be)
  then show ?case by simp
next
  case (5 b d c cs ev al be)
  let ?e = "minimax (b[c := ''X'']) (d + 1) True al be"
  have e: "?e \<le> Num 9" using "5.IH"(1) "5.prems" by simp
  then have m: "min ev ?e \<le> Num 9" by (simp add: min_le_iff_disj)
  show ?case
  proof (cases "min be ?e \<le> al")
    case True
    then show ?thesis using m by (simp add: Let_def)
  next
    case False
    from m have "cs \<noteq> [] \<or> min ev ?e \<le> Num 9" by simp
    from "5.IH"(2) [OF refl False "5.prems"(1,2) this]
    show ?thesis using False by (simp add: Let_def)
  qed
qed

lemma moveValue_win:
  "checkWinner (b[c := ''O'']) ''O'' \<noteq> None \<Longrightarrow> moveValue b c = Num 10"
  by (simp add: moveValue_def minimax.simps [of "b[c := ''O'']"])

lemma moveValue_no_win:
  assumes "checkWinner (b[c := ''O'']) ''O'' = None"
  shows "moveValue b c \<le> Num 9"
proof (cases "checkWinner (b[c := ''O'']) ''X'' \<noteq> None \<or> length (getEmptyCells (b[c := ''O''])) = 0")
  case True
  then show ?thesis using assms
    by (auto simp: moveValue_def minimax.simps [of "b[c := ''O'']"])
next
  case False
  then have "getEmptyCells (b[c := ''O'']) \<noteq> [] \<or> Infinity \<le> Num 9" by simp
  from value_le_9(3) [OF _ _ this, of 0 "b[c := ''O'']" NegInfinity Infinity]
  show ?thesis using assms False
    by (simp add: moveValue_def minimax.simps [of "b[c := ''O'']"])
qed

lemma bestMoveLoop_first_max:
  "(fst (bestMoveLoop b cs bm bv) = bm \<and> (\<forall>j < length cs. moveValue b (cs ! j) \<le> bv))
   \<or> (\<exists>k < length cs. fst (bestMoveLoop b cs bm bv) = int (cs ! k)
         \<and> bv < moveValue b (cs ! k)
         \<and> (\<forall>j < k. moveValue b (cs ! j) < moveValue b (cs ! k))
         \<and> (\<forall>j < length cs. moveValue b (cs ! j) \<le> moveValue b (cs ! k)))"
proof (induction cs arbitrary: bm bv)
  case Nil
  show ?case by simp
next
  case (Cons c cs)
  let ?v = "moveValue b c"
  show ?case
  proof (cases "bv < ?v")
    case True
    then have r: "bestMoveLoop b (c # cs) bm bv = bestMoveLoop b cs (int c) ?v"
      by (simp add: moveValue_def Let_def)
    from Cons.IH [of "int c" ?v] show ?thesis
    proof
      assume a: "fst (bestMoveLoop b cs (int c) ?v) = int c
        \<and> (\<forall>j < length cs. moveValue b (cs ! j) \<le> ?v)"
      have "0 < length (c # cs) \<and> fst (bestMoveLoop b (c # cs) bm bv) = int ((c # cs) ! 0)
         \<and> bv < moveValue b ((c # cs) ! 0)
         \<and> (\<forall>j < 0. moveValue b ((c # cs) ! j) < moveValue b ((c # cs) ! 0))
         \<and> (\<forall>j < length (c # cs). moveValue b ((c # cs) ! j) \<le> moveValue b ((c # cs) ! 0))"
        using a True r by (simp add: All_less_Suc2)
      then show ?thesis by blast
    next
      assume "\<exists>k < length cs. fst (bestMoveLoop b cs (int c) ?v) = int (cs ! k)
         \<and> ?v < moveValue b (cs ! k)
         \<and> (\<forall>j < k. moveValue b (cs ! j) < moveValue b (cs ! k))
         \<and> (\<forall>j < length cs. moveValue b (cs ! j) \<le> moveValue b (cs ! k))"
      then obtain k where k: "k < length cs" "fst (bestMoveLoop b cs (int c) ?v) = int (cs ! k)"
         "?v < moveValue b (cs ! k)"
         "\<forall>j < k. moveValue b (cs ! j) < moveValue b (cs ! k)"
         "\<forall>j < length cs. moveValue b (cs ! j) \<le> moveValue b (cs ! k)" by blast
      have "Suc k < length (c # cs) \<and> fst (bestMoveLoop b (c # cs) bm bv) = int ((c # cs) ! Suc k)
         \<and> bv < moveValue b ((c # cs) ! Suc k)
         \<and> (\<forall>j < Suc k. moveValue b ((c # cs) ! j) < moveValue b ((c # cs) ! Suc k))
         \<and> (\<forall>j < length (c # cs). moveValue b ((c # cs) ! j) \<le> moveValue b ((c # cs) ! Suc k))"
        using k True r by (auto simp: All_less_Suc2)
      then show ?thesis by blast
    qed
  next
    case False
    then have r: "bestMoveLoop b (c # cs) bm bv = bestMoveLoop b cs bm bv"
      by (simp add: moveValue_def Let_def)
    from False have le: "?v \<le> bv" by simp
    from Cons.IH [of bm bv] show ?thesis
    proof
      assume "fst (bestMoveLoop b cs bm bv) = bm \<and> (\<forall>j < length cs. moveValue b (cs ! j) \<le> bv)"
      then have "fst (bestMoveLoop b (c # cs) bm bv) = bm
         \<and> (\<forall>j < length (c # cs). moveValue b ((c # cs) ! j) \<le> bv)"
        using r le by (simp add: All_less_Suc2)
      then show ?thesis by blast
    next
      assume "\<exists>k < length cs. fst (bestMoveLoop b cs bm bv) = int (cs ! k)
         \<and> bv < moveValue b (cs ! k)
         \<and> (\<forall>j < k. moveValue b (cs ! j) < moveValue b (cs ! k))
         \<and> (\<forall>j < length cs. moveValue b (cs ! j) \<le> moveValue b (cs ! k))"
      then obtain k where k: "k < length cs" "fst (bestMoveLoop b cs bm bv) = int (cs ! k)"
         "bv < moveValue b (cs ! k)"
         "\<forall>j < k. moveValue b (cs ! j) < moveValue b (cs ! k)"
         "\<forall>j < length cs. moveValue b (cs ! j) \<le> moveValue b (cs ! k)" by blast
      have "Suc k < length (c # cs) \<and> fst (bestMoveLoop b (c # cs) bm bv) = int ((c # cs) ! Suc k)
         \<and> bv < moveValue b ((c # cs) ! Suc k)
         \<and> (\<forall>j < Suc k. moveValue b ((c # cs) ! j) < moveValue b ((c # cs) ! Suc k))
         \<and> (\<forall>j < length (c # cs). moveValue b ((c # cs) ! j) \<le> moveValue b ((c # cs) ! Suc k))"
        using k le r by (auto simp: All_less_Suc2)
      then show ?thesis by blast
    qed
  qed
qed

lemma sorted_getEmptyCells: "sorted (getEmptyCells b)"
  unfolding getEmptyCells_def by (rule sorted_wrt_filter) simp

lemma expert_choice:
  assumes "cs \<noteq> []"
  shows "\<exists>k < length cs.
      (let bestMove = fst (bestMoveLoop b cs (- 1) NegInfinity) in
       if bestMove \<noteq> - 1 then Inr (Cell (nat bestMove))
       else Inr (toMove (elemAt cs 0))) = (Inr (Cell (cs ! k)) :: error + move)
      \<and> (\<forall>j < k. moveValue b (cs ! j) < moveValue b (cs ! k))
      \<and> (\<forall>j < length cs. moveValue b (cs ! j) \<le> moveValue b (cs ! k))"
  using bestMoveLoop_first_max [of b cs "- 1" NegInfinity]
proof
  assume a: "fst (bestMoveLoop b cs (- 1) NegInfinity) = - 1
    \<and> (\<forall>j < length cs. moveValue b (cs ! j) \<le> NegInfinity)"
  then have "\<forall>j < length cs. moveValue b (cs ! j) = NegInfinity"
    by (auto intro: antisym)
  then have "0 < length cs
      \<and> (let bestMove = fst (bestMoveLoop b cs (- 1) NegInfinity) in
         if bestMove \<noteq> - 1 then Inr (Cell (nat bestMove))
         else Inr (toMove (elemAt cs 0))) = (Inr (Cell (cs ! 0)) :: error + move)
      \<and> (\<forall>j < 0. moveValue b (cs ! j) < moveValue b (cs ! 0))
      \<and> (\<forall>j < length cs. moveValue b (cs ! j) \<le> moveValue b (cs ! 0))"
    using a assms by (simp add: elemAt_def toMove_def)
  then show ?thesis by blast
next
  assume "\<exists>k < length cs. fst (bestMoveLoop b cs (- 1) NegInfinity) = int (cs ! k)
         \<and> NegInfinity < moveValue b (cs ! k)
         \<and> (\<forall>j < k. moveValue b (cs ! j) < moveValue b (cs ! k))
         \<and> (\<forall>j < length cs. moveValue b (cs ! j) \<le> moveValue b (cs ! k))"
  then obtain k where k: "k < length cs" "fst (bestMoveLoop b cs (- 1) NegInfinity) = int (cs ! k)"
         "\<forall>j < k. moveValue b (cs ! j) < moveValue b (cs ! k)"
         "\<forall>j < length cs. moveValue b (cs ! j) \<le> moveValue b (cs ! k)" by blast
  then have "(let bestMove = fst (bestMoveLoop b cs (- 1) NegInfinity) in
       if bestMove \<noteq> - 1 then Inr (Cell (nat bestMove))
       else Inr (toMove (elemAt cs 0))) = (Inr (Cell (cs ! k)) :: error + move)"
    by (simp add: Let_def)
  with k show ?thesis by blast
qed

lemma getBestMove_expert:
  assumes "opponents sel = Some opp" and "difficulty opp = ''expert''"
    and "\<not> r1 < errorRate opp" and "getEmptyCells b \<noteq> []"
  shows "getBestMove sel r1 r2 r3 b =
      (let bestMove = fst (bestMoveLoop b (getEmptyCells b) (- 1) NegInfinity) in
       if bestMove \<noteq> - 1 then Inr (Cell (nat bestMove))
       else Inr (toMove (elemAt (getEmptyCells b) 0)))"
  using assms by (simp add: getBestMove_def Let_def)

text \<open>
  Claim C3. When the selected opponent is of the expert tier, the error injection does
  not fire (the first draw is not below the error rate) and some empty cell \<open>c\<close> wins at
  once for \<^verbatim>\<open>'O'\<close>, \<open>getBestMove\<close> returns an empty cell that wins for \<^verbatim>\<open>'O'\<close>, the first
  such cell in ascending order. The returned cell has the greatest value of all empty
  cells, and every empty cell before it has a strictly smaller value: among cells of
  equal value the first is chosen.
\<close>

theorem expert_takes_win:
  assumes "opponents sel = Some opp" and "difficulty opp = ''expert''"
    and "\<not> r1 < errorRate opp"
    and "c \<in> set (getEmptyCells b)" and "checkWinner (b[c := ''O'']) ''O'' \<noteq> None"
  shows "\<exists>i. getBestMove sel r1 r2 r3 b = Inr (Cell i)
    \<and> i \<in> set (getEmptyCells b) \<and> checkWinner (b[i := ''O'']) ''O'' \<noteq> None \<and> i \<le> c
    \<and> (\<forall>j \<in> set (getEmptyCells b).
          moveValue b j \<le> moveValue b i \<and> (j < i \<longrightarrow> moveValue b j < moveValue b i))"
proof -
  let ?cs = "getEmptyCells b"
  from assms(4) have ne: "?cs \<noteq> []" by auto
  from expert_choice [OF ne, of b] obtain k where k: "k < length ?cs"
    and g: "getBestMove sel r1 r2 r3 b = Inr (Cell (?cs ! k))"
    and lt: "\<forall>j < k. moveValue b (?cs ! j) < moveValue b (?cs ! k)"
    and le: "\<forall>j < length ?cs. moveValue b (?cs ! j) \<le> moveValue b (?cs ! k)"
    unfolding getBestMove_expert [OF assms(1-3) ne] by blast
  let ?i = "?cs ! k"
  have before: "j' < k" if "j' < length ?cs" "?cs ! j' < ?i" for j'
  proof (rule ccontr)
    assume "\<not> j' < k"
    then have "k \<le> j'" by simp
    then have "?i \<le> ?cs ! j'"
      using sorted_getEmptyCells [of b] that(1) by (simp add: sorted_nth_mono)
    with that(2) show False by simp
  qed
  have all: "moveValue b j \<le> moveValue b ?i \<and> (j < ?i \<longrightarrow> moveValue b j < moveValue b ?i)"
    if "j \<in> set ?cs" for j
  proof -
    from that obtain j' where j': "j' < length ?cs" "?cs ! j' = j"
      by (auto simp: in_set_conv_nth)
    with le lt before [of j'] show ?thesis by auto
  qed
  have c10: "moveValue b c = Num 10" using assms(5) by (rule moveValue_win)
  have win: "checkWinner (b[?i := ''O'']) ''O'' \<noteq> None"
  proof
    assume "checkWinner (b[?i := ''O'']) ''O'' = None"
    then have "moveValue b ?i \<le> Num 9" by (rule moveValue_no_win)
    moreover have "Num 10 \<le> moveValue b ?i" using all [OF assms(4)] c10 by simp
    ultimately have "Num 10 \<le> Num 9" by (rule order_trans [rotated])
    then show False by simp
  qed
  then have i10: "moveValue b ?i = Num 10" by (rule moveValue_win)
  have "?i \<le> c"
  proof (rule ccontr)
    assume "\<not> ?i \<le> c"
    then have "c < ?i" by simp
    with all [OF assms(4)] have "moveValue b c < moveValue b ?i" by simp
    with c10 i10 show False by simp
  qed
  with g k win all show ?thesis by auto
qed

theorem expert_takes_win_witness:
  "opponents ''victor''
       = Some \<lparr>name = ''Victor'', difficulty = ''expert'',
               description = ''Master strategist, nearly unbeatable'',
               thinkingTime = (1500, 3000), errorRate = 5 / 100\<rparr>
   \<and> \<not> (1 / 2 :: real) < 5 / 100
   \<and> 5 \<in> set (getEmptyCells [''X'', ''X'', '''', ''O'', ''O'', '''', ''X'', '''', ''''])
   \<and> checkWinner ([''X'', ''X'', '''', ''O'', ''O'', '''', ''X'', '''', ''''][5 := ''O'']) ''O'' \<noteq> None
   \<and> getBestMove ''victor'' (1 / 2) 0 0 [''X'', ''X'', '''', ''O'', ''O'', '''', ''X'', '''', '''']
       = Inr (Cell 5)"
proof -
  let ?b = "[''X'', ''X'', '''', ''O'', ''O'', '''', ''X'', '''', '''']"
  let ?v = "\<lparr>name = ''Victor'', difficulty = ''expert'',
               description = ''Master strategist, nearly unbeatable'',
               thinkingTime = (1500, 3000), errorRate = 5 / 100 :: real\<rparr>"
  have o: "opponents ''victor'' = Some ?v" by (simp add: opponents_def)
  have d: "difficulty ?v = ''expert''" by simp
  have r: "\<not> (1 / 2 :: real) < errorRate ?v" by simp
  have e: "getEmptyCells ?b = [2, 5, 7, 8]" by (simp add: getEmptyCells_def upt_rec)
  have m: "5 \<in> set (getEmptyCells ?b)" by (simp add: e)
  have w: "checkWinner (?b[5 := ''O'']) ''O'' \<noteq> None"
    by (simp add: checkWinner_def winCombos_def comboWins_def elemAt_def)
  have n: "checkWinner (?b[2 := ''O'']) ''O'' = None"
    by (simp add: checkWinner_def winCombos_def comboWins_def elemAt_def)
  from expert_takes_win [OF o d r m w, of 0 0] obtain i
    where i: "getBestMove ''victor'' (1 / 2) 0 0 ?b = Inr (Cell i)"
      "i \<in> set (getEmptyCells ?b)" "checkWinner (?b[i := ''O'']) ''O'' \<noteq> None" "i \<le> 5"
    by blast
  from i(2,4) have "i = 2 \<or> i = 5" by (auto simp: e)
  with i(3) n have "i = 5" by auto
  with i(1) o r m w show ?thesis by simp
qed

section \<open>The invariant of the controller\<close>

lemma count_list_update:
  "i < length xs \<Longrightarrow> xs ! i \<noteq> x \<Longrightarrow>
     count_list (xs[i := v]) x = count_list xs x + (if v = x then 1 else 0)"
proof (induction xs arbitrary: i)
  case Nil
  then show ?case by simp
next
  case (Cons a xs)
  then show ?case by (cases i) auto
qed

lemma lead_update:
  assumes "elemAt b i = Some ''''"
  shows "lead (b[i := ''X'']) = lead b + 1" and "lead (b[i := ''O'']) = lead b - 1"
  using assms by (simp_all add: lead_def countOf_def elemAt_Some count_list_update)

lemma count_list_replicate_other: "x \<noteq> y \<Longrightarrow> count_list (replicate n x) y = 0"
  by (induction n) simp_all

lemma lead_replicate [simp]: "lead (replicate n '''') = 0"
  by (simp add: lead_def countOf_def count_list_replicate_other)

lemma makeMove_cases:
  "makeMove c i p s = s
   \<or> (\<not> gameFinished c \<and> elemAt (board c) i = Some '''' \<and> \<not> isThinking c
      \<and> board (makeMove c i p s) = (board c)[i := p]
      \<and> (gameFinished (makeMove c i p s)
         \<or> currentPlayer (makeMove c i p s) = (if p = ''X'' then ''O'' else ''X'')))"
proof (cases "gameFinished c \<or> elemAt (board c) i \<noteq> Some '''' \<or> isThinking c")
  case True
  then show ?thesis by (simp add: makeMove_rejected)
next
  case False
  then have a: "\<not> gameFinished c" "elemAt (board c) i = Some ''''" "\<not> isThinking c"
    by simp_all
  show ?thesis
    using a by (simp add: makeMove_applied [OF a] split: option.split)
qed

lemma turnInv_makeMove_X:
  assumes "turnInv s" and "lead (board c) = 0"
  shows "turnInv (makeMove c i ''X'' s)"
  using makeMove_cases [of c i "''X''" s] assms
  by (auto simp: turnInv_def lead_update)

lemma turnInv_makeMove_O:
  assumes "turnInv s" and "lead (board c) = 1"
  shows "turnInv (makeMove c i ''O'' s)"
  using makeMove_cases [of c i "''O''" s] assms
  by (auto simp: turnInv_def lead_update)

lemma turnInv_handleCellClick:
  assumes "turnInv s"
  shows "turnInv (handleCellClick i s)"
proof (cases "gameFinished s")
  case True
  then have "makeMove s i (currentPlayer s) s = s" by (simp add: makeMove_rejected)
  then show ?thesis using assms by (simp add: handleCellClick_def)
next
  case False
  with assms have "(currentPlayer s = ''X'' \<and> lead (board s) = 0)
      \<or> (currentPlayer s = ''O'' \<and> lead (board s) = 1)"
    by (simp add: turnInv_def)
  then show ?thesis
    using assms turnInv_makeMove_X [of s s i] turnInv_makeMove_O [of s s i]
    by (auto simp: handleCellClick_def)
qed

lemma turnInv_isThinking [simp]: "turnInv (s\<lparr>isThinking := t\<rparr>) = turnInv s"
  by (simp add: turnInv_def)

lemma turnInv_thinkingDone:
  assumes "turnInv s" and "timerInv c"
  shows "turnInv (thinkingDone c r1 r2 r3 s)"
proof -
  from assms(2) have l: "lead (board c) = 1" by (simp add: timerInv_def)
  show ?thesis
    using assms(1) turnInv_makeMove_O [OF assms(1) l]
    by (simp add: thinkingDone_def split: sum.split move.split)
qed

lemma turnInv_initGame [simp]: "turnInv (initGame s)"
  by (simp add: turnInv_def initGame_def)

lemma turnInv_resetScore [simp]: "turnInv (resetScore s) = turnInv s"
  by (simp add: turnInv_def resetScore_def)

lemma turnInv_selectOpponent: "turnInv s \<Longrightarrow> turnInv (selectOpponent opponentId s)"
  by (simp add: selectOpponent_def Let_def) (simp add: turnInv_def)

lemma sessionInv_step:
  assumes "sessionInv ss"
  shows "sessionInv (step e ss)"
proof (cases e)
  case (CellClick i)
  then show ?thesis using assms by (simp add: sessionInv_def turnInv_handleCellClick)
next
  case OpponentTurn
  show ?thesis
  proof (cases "gameMode (live ss) = ''computer'' \<and> currentPlayer (live ss) = ''O''
        \<and> \<not> gameFinished (live ss) \<and> \<not> isThinking (live ss)")
    case True
    with assms have "timerInv (live ss)"
      by (auto simp: sessionInv_def turnInv_def timerInv_def)
    with True assms show ?thesis
      unfolding OpponentTurn by (simp add: sessionInv_def opponentMove_def)
  next
    case False
    with assms show ?thesis unfolding OpponentTurn by auto
  qed
next
  case (ThinkingDone k r1 r2 r3)
  show ?thesis
  proof (cases "k < length (timers ss) \<and> validDraw r1 \<and> validDraw r2 \<and> validDraw r3")
    case True
    from assms have all: "\<forall>c \<in> set (timers ss). timerInv c"
      by (simp add: sessionInv_def list_all_iff)
    with True have t: "timerInv (timers ss ! k)" by simp
    have "set (take k (timers ss) @ drop (Suc k) (timers ss)) \<subseteq> set (timers ss)"
      by (auto dest: in_set_takeD in_set_dropD)
    with all have "list_all timerInv (take k (timers ss) @ drop (Suc k) (timers ss))"
      unfolding list_all_iff by blast
    with True t assms show ?thesis
      unfolding ThinkingDone by (simp add: sessionInv_def turnInv_thinkingDone)
  next
    case False
    with assms show ?thesis unfolding ThinkingDone by auto
  qed
next
  case NewGame
  then show ?thesis using assms by (simp add: sessionInv_def)
next
  case ResetScore
  then show ?thesis using assms by (simp add: sessionInv_def)
next
  case (SwitchMode mode)
  then show ?thesis using assms by (simp add: sessionInv_def switchMode_def)
next
  case (SelectOpponent opponentId)
  then show ?thesis using assms by (simp add: sessionInv_def turnInv_selectOpponent)
qed

lemma sessionInv_run: "sessionInv ss \<Longrightarrow> sessionInv (run events ss)"
  unfolding run_def by (induction events arbitrary: ss) (simp_all add: sessionInv_step)

lemma sessionInv_initial: "sessionInv initialSession"
  by (simp add: sessionInv_def initialSession_def turnInv_def initialGame_def)

text \<open>
  Claim C5. In every state the controller reaches from the initial session, by clicks
  on cells, moves of the opponent, new games, score resets and changes of mode or
  opponent, the board has as many \<^verbatim>\<open>'X'\<close> as \<^verbatim>\<open>'O'\<close> or exactly one more.
\<close>

theorem count_invariant:
  "countOf ''X'' (board (live (run events initialSession)))
     - countOf ''O'' (board (live (run events initialSession))) \<in> {0, 1}"
  using sessionInv_run [OF sessionInv_initial, of events]
  by (auto simp: sessionInv_def turnInv_def lead_def)

theorem count_invariant_witness:
  "countOf ''X'' (board (live (run [CellClick 4, CellClick 0, NewGame, CellClick 8] initialSession)))
     - countOf ''O'' (board (live (run [CellClick 4, CellClick 0, NewGame, CellClick 8] initialSession)))
     \<in> {0, 1}"
  by (rule count_invariant)

text \<open>
  A thinking timer is never cleared, and its callback runs \<open>makeMove\<close> in the render that
  started it. When a new game begins while the opponent is thinking, the timer still
  fires: the guard of \<open>makeMove\<close> reads the old render, and the old position with the
  opponent's answer replaces the fresh board. The invariant above holds all the same.
\<close>

lemma stale_timer_example:
  "board (live (run [SwitchMode ''computer'', CellClick 4, OpponentTurn, NewGame,
                     ThinkingDone 0 0 0 0] initialSession))
     = [''O'', '''', '''', '''', ''X'', '''', '''', '''', '''']
   \<and> currentPlayer (live (run [SwitchMode ''computer'', CellClick 4, OpponentTurn, NewGame]
                          initialSession)) = ''X''
   \<and> board (live (run [SwitchMode ''computer'', CellClick 4, OpponentTurn, NewGame]
                          initialSession)) = replicate 9 ''''"
  by (simp add: run_def initialSession_def initialGame_def switchMode_def initGame_def
      handleCellClick_def makeMove_def elemAt_def checkWinner_def winCombos_def comboWins_def
      getEmptyCells_def upt_rec opponentMove_def validDraw_def thinkingDone_def
      getBestMove_def opponents_def pick_def toMove_def eval_nat_numeral)

text \<open>
  Claim C2 fails on the code, on the path of the thinking timer. The claim asks that a
  move on a finished game, on an occupied cell or out of turn changes nothing. A click
  obeys it (\<open>handleCellClick_rejected\<close>); the callback of a thinking timer tests the
  render that started it, not the game it changes. In the session below the opponent
  starts thinking in a game against the computer, the player switches to the mode for
  two players and \<^verbatim>\<open>'X'\<close> wins a game there. When the timer fires, the game is finished
  and it is nobody's turn, yet the board of the finished game is replaced by the old
  position with the winning move of \<^verbatim>\<open>'O'\<close>, and the score of \<^verbatim>\<open>'O'\<close> goes from 0 to 1.
\<close>

theorem stale_timer_on_finished_game:
  "gameFinished (live (run [SwitchMode ''computer'', SelectOpponent ''victor'', CellClick 4,
        OpponentTurn, ThinkingDone 0 0 0 0, CellClick 1, OpponentTurn,
        ThinkingDone 0 0 (1 / 4) 0, CellClick 2, OpponentTurn, SwitchMode ''human'',
        CellClick 0, CellClick 3, CellClick 1, CellClick 5, CellClick 2] initialSession))
   \<and> board (live (run [SwitchMode ''computer'', SelectOpponent ''victor'', CellClick 4,
        OpponentTurn, ThinkingDone 0 0 0 0, CellClick 1, OpponentTurn,
        ThinkingDone 0 0 (1 / 4) 0, CellClick 2, OpponentTurn, SwitchMode ''human'',
        CellClick 0, CellClick 3, CellClick 1, CellClick 5, CellClick 2] initialSession))
       = [''X'', ''X'', ''X'', ''O'', '''', ''O'', '''', '''', '''']
   \<and> scores (live (run [SwitchMode ''computer'', SelectOpponent ''victor'', CellClick 4,
        OpponentTurn, ThinkingDone 0 0 0 0, CellClick 1, OpponentTurn,
        ThinkingDone 0 0 (1 / 4) 0, CellClick 2, OpponentTurn, SwitchMode ''human'',
        CellClick 0, CellClick 3, CellClick 1, CellClick 5, CellClick 2] initialSession)) ''O''
       = Some 0
   \<and> board (live (run [SwitchMode ''computer'', SelectOpponent ''victor'', CellClick 4,
        OpponentTurn, ThinkingDone 0 0 0 0, CellClick 1, OpponentTurn,
        ThinkingDone 0 0 (1 / 4) 0, CellClick 2, OpponentTurn, SwitchMode ''human'',
        CellClick 0, CellClick 3, CellClick 1, CellClick 5, CellClick 2,
        ThinkingDone 0 0 (1 / 4) 0] initialSession))
       = [''O'', ''X'', ''X'', ''O'', ''X'', '''', ''O'', '''', '''']
   \<and> scores (live (run [SwitchMode ''computer'', SelectOpponent ''victor'', CellClick 4,
        OpponentTurn, ThinkingDone 0 0 0 0, CellClick 1, OpponentTurn,
        ThinkingDone 0 0 (1 / 4) 0, CellClick 2, OpponentTurn, SwitchMode ''human'',
        CellClick 0, CellClick 3, CellClick 1, CellClick 5, CellClick 2,
        ThinkingDone 0 0 (1 / 4) 0] initialSession)) ''O''
       = Some 1"
  by (simp add: run_def initialSession_def initialGame_def switchMode_def selectOpponent_def
      initGame_def handleCellClick_def makeMove_def handleWin_def elemAt_def checkWinner_def
      winCombos_def comboWins_def getEmptyCells_def upt_rec opponentMove_def validDraw_def
      thinkingDone_def getBestMove_def opponents_def pick_def toMove_def eval_nat_numeral)

end
